theory Spec2Isabelle
  imports Main
begin

section \<open>Data model of \<^verbatim>\<open>backtrader_plotting/bokeh/bokeh.py\<close>\<close>

text \<open>
  Python objects are identified by a reference; \<open>None\<close> of Python is \<open>None\<close> of
  \<open>option\<close>. The plottable objects of a strategy (data feeds, indicators, observers) live
  in a heap that \<^verbatim>\<open>Bokeh\<close> only reads.
\<close>

type_synonym ref = nat

text \<open>The three classes \<^verbatim>\<open>type(master)\<close> is tested against in the layout code.\<close>

datatype kind = DataBase | Indicator | Observer

text \<open>The attributes of \<^verbatim>\<open>obj.plotinfo\<close> that the module reads.\<close>

record plotinfo =
  plot :: bool
  plotskip :: bool
  subplot :: bool
  plotmaster :: "ref option"
  plotabove :: bool

text \<open>
  A plottable object: its \<^verbatim>\<open>plotinfo\<close>, its \<^verbatim>\<open>data\<close> attribute (the data feed an
  indicator or observer is computed on; the host framework sets it to an object, never to
  \<open>None\<close>, and the code does not read it for data feeds), its class, and the value of
  \<^verbatim>\<open>bool(obj)\<close>, which line 66 consults through \<^verbatim>\<open>o.plotinfo.plotmaster or o.data\<close>.
  Objects are hashed and compared by identity when they are keys of a dictionary, so a key
  is a reference.
\<close>

record plottable =
  plotinfo :: plotinfo
  data :: ref
  kind :: kind
  truthy :: bool

type_synonym heap = "ref \<Rightarrow> plottable"

text \<open>
  An entry of \<^verbatim>\<open>strategy.getindicators()\<close>: either an object without a \<^verbatim>\<open>plotinfo\<close>
  attribute (the \<^verbatim>\<open>LineSingle\<close> derived classes of line 73) or a plottable.
\<close>

datatype ind_entry = LineSingle | Plottable ref

text \<open>The theme options the module reads from \<^verbatim>\<open>self.p.scheme\<close>.\<close>

record scheme =
  volume :: bool
  voloverlay :: bool
  xaxis_pos :: string
  legend_click :: string
  legend_background_color :: string
  legend_text_color :: string

text \<open>A \<^verbatim>\<open>start\<close> or \<^verbatim>\<open>end\<close> argument that is not \<open>None\<close>: an index or a calendar date.\<close>

datatype 'd bound = Index int | Date 'd

text \<open>
  A bokeh widget with its \<^verbatim>\<open>height\<close> attribute, and the layout objects the analyzer tab
  is made of.
\<close>

record widget =
  height :: "int option"

datatype layout = Column "widget list" | Row "layout list"

datatype panel = Panel layout string

text \<open>\<^verbatim>\<open>a.getitems()\<close> of an analyzer collection: the named analyzers, in order.\<close>

type_synonym 'an item_collection = "(string \<times> 'an) list"

text \<open>
  What a call does besides changing the object: it returns, or it raises. The built-in
  exception classes are constructors of their own.
\<close>

datatype exn = Exception string | AttributeError

datatype outcome = Returned | Raised exn

text \<open>
  The strategy as \<^verbatim>\<open>plot\<close> reads it: \<^verbatim>\<open>strategy.datas\<close>, \<^verbatim>\<open>getindicators()\<close>,
  \<^verbatim>\<open>getobservers()\<close>, \<^verbatim>\<open>len(strategy)\<close>, \<^verbatim>\<open>strategy.analyzers\<close> and the date numbers
  \<^verbatim>\<open>strategy.lines.datetime.plot()\<close>.
\<close>

record ('a, 'an) strategy =
  datas :: "ref list"
  getindicators :: "ind_entry list"
  getobservers :: "ref list"
  len :: nat
  strategy_analyzers :: "'an item_collection"
  datetime_plot :: "'a list"

text \<open>
  The shared time source. Its column is computed by the host framework
  (\<^verbatim>\<open>plotrange\<close>, \<^verbatim>\<open>num2date\<close>) from the first data feed and the \<^verbatim>\<open>start\<close> and \<^verbatim>\<open>end\<close>
  arguments; the model keeps those three, which determine it.
\<close>

datatype 'd cds = ColumnDataSource ref "'d bound option" "'d bound option"

text \<open>
  Modelled from the spec: the class \<^verbatim>\<open>Figure\<close> of \<^verbatim>\<open>figure.py\<close>, which is not part of the
  sources at hand. Per the spec a figure is one panel bound to the shared time source and
  the start/end index range; it records the series plotted on it. The remaining fields are
  the attributes of \<^verbatim>\<open>f.figure\<close> that \<^verbatim>\<open>plot\<close> assigns. The \<^verbatim>\<open>x_range\<close> object of a figure
  is named by the position, in the session's figure list, of the figure that created it.
\<close>

record 'd figure =
  fig_cds :: "'d cds option"
  fig_start :: int
  fig_end :: int
  master_type :: "kind option"
  fig_plotabove :: bool
  plotted :: "(ref \<times> ref option) list"
  legend_click_policy :: "string option"
  legend_background_fill_color :: "string option"
  legend_label_text_color :: "string option"
  x_range :: nat
  xaxis_visible :: bool
  hovertips :: bool

text \<open>A Python \<^verbatim>\<open>dict\<close> in insertion order; the plot graph maps a master to its slaves.\<close>

type_synonym graph = "(ref option \<times> ref list) list"

text \<open>The attributes of a \<^verbatim>\<open>Bokeh\<close> object (lines 30--35), and its scheme parameter.\<close>

record ('an, 'd) bokeh =
  figures :: "'d figure list"
  data_graph :: "graph option"
  volume_graphs :: "ref list option"
  cds :: "'d cds option"
  analyzers :: "'an item_collection list"
  p_scheme :: scheme

section \<open>PlotMaster resolver (lines 88--99)\<close>

text \<open>
  The \<^verbatim>\<open>while True\<close> loop. It has no bound, so it is a partial function: \<open>None\<close> is
  "does not return".
\<close>

partial_function (option) resolve_loop :: "heap \<Rightarrow> ref \<Rightarrow> ref option" where
  "resolve_loop h obj =
     (case plotmaster (plotinfo (h obj)) of
        None \<Rightarrow> Some obj
      | Some pm \<Rightarrow> resolve_loop h pm)"

text \<open>
  \<^verbatim>\<open>_resolve_plotmaster\<close>: the outer \<open>option\<close> is termination, the inner one is the Python
  value returned (\<open>None\<close> or an object).
\<close>

definition resolve_plotmaster :: "heap \<Rightarrow> ref option \<Rightarrow> ref option option" where
  "resolve_plotmaster h obj =
     (case obj of
        None \<Rightarrow> Some None
      | Some r \<Rightarrow> map_option Some (resolve_loop h r))"

text \<open>Following the plot-master link \<open>n\<close> times, if there are that many links.\<close>

fun follow :: "heap \<Rightarrow> nat \<Rightarrow> ref \<Rightarrow> ref option" where
  "follow h 0 r = Some r"
| "follow h (Suc n) r =
     (case plotmaster (plotinfo (h r)) of
        None \<Rightarrow> None
      | Some pm \<Rightarrow> follow h n pm)"

section \<open>Analyzer tab (lines 238--262)\<close>

definition get_column_row_count :: "widget list \<Rightarrow> int" where
  "get_column_row_count col = sum_list [the (height x). x \<leftarrow> col, height x \<noteq> None]"

text \<open>
  One pass of the inner loop body, lines 250--253, for the block
  \<^verbatim>\<open>(table_header, elements)\<close>; \<^verbatim>\<open>col_childs\<close> is the pair of the two columns.
\<close>

definition col_idx :: "widget list \<times> widget list \<Rightarrow> nat" where
  "col_idx col_childs =
     (let col0cnt = get_column_row_count (fst col_childs);
          col1cnt = get_column_row_count (snd col_childs)
      in if col0cnt \<le> col1cnt then 0 else 1)"

definition place_block ::
  "widget list \<times> widget list \<Rightarrow> widget \<times> widget list \<Rightarrow> widget list \<times> widget list" where
  "place_block col_childs block =
     (if col_idx col_childs = 0
      then (fst col_childs @ [fst block] @ snd block, snd col_childs)
      else (fst col_childs, snd col_childs @ [fst block] @ snd block))"

text \<open>
  The two nested loops of lines 246--253. \<open>get_analyzers_tables\<close> is the table generator
  of \<^verbatim>\<open>datatable.py\<close>, a parameter here.
\<close>

definition analyzer_blocks ::
  "('an \<Rightarrow> widget \<times> widget list) \<Rightarrow> 'an item_collection list \<Rightarrow> (widget \<times> widget list) list" where
  "analyzer_blocks get_analyzers_tables as =
     [get_analyzers_tables analyzer. a \<leftarrow> as, (name, analyzer) \<leftarrow> a]"

definition fill_columns :: "(widget \<times> widget list) list \<Rightarrow> widget list \<times> widget list" where
  "fill_columns blocks = foldl place_block ([], []) blocks"

text \<open>The column index chosen for each block, in order (the values \<^verbatim>\<open>col_idx\<close> takes).\<close>

fun col_trace :: "widget list \<times> widget list \<Rightarrow> (widget \<times> widget list) list \<Rightarrow> nat list" where
  "col_trace cc [] = []"
| "col_trace cc (b # bs) = col_idx cc # col_trace (place_block cc b) bs"

definition get_analyzer_tab ::
  "('an \<Rightarrow> widget \<times> widget list) \<Rightarrow> 'an item_collection list \<Rightarrow> panel option" where
  "get_analyzer_tab get_analyzers_tables as =
     (if length as = 0 then None
      else
        let col_childs = fill_columns (analyzer_blocks get_analyzers_tables as);
            column1 = Column (fst col_childs);
            childs = [column1] @
              (if length (snd col_childs) > 0 then [Column (snd col_childs)] else [])
        in Some (Panel (Row childs) ''Analyzers''))"

text \<open>The height a block adds to the column it is placed in.\<close>

definition block_height :: "widget \<times> widget list \<Rightarrow> int" where
  "block_height block = get_column_row_count ([fst block] @ snd block)"

section \<open>Graph builder (lines 40--86)\<close>

text \<open>
  \<^verbatim>\<open>g[k] = v\<close> on a \<^verbatim>\<open>dict\<close>: a present key keeps its position, a new key goes last.
\<close>

fun dict_set :: "('k \<times> 'v) list \<Rightarrow> 'k \<Rightarrow> 'v \<Rightarrow> ('k \<times> 'v) list" where
  "dict_set [] k v = [(k, v)]"
| "dict_set ((k', v') # kvs) k v =
     (if k' = k then (k', v) # kvs else (k', v') # dict_set kvs k v)"

text \<open>
  \<^verbatim>\<open>g[k].append(x)\<close>. Every use below comes after the key has been put in, so the
  \<^verbatim>\<open>KeyError\<close> of a missing key does not arise; the first equation is never reached.
\<close>

fun dict_append :: "('k \<times> 'v list) list \<Rightarrow> 'k \<Rightarrow> 'v \<Rightarrow> ('k \<times> 'v list) list" where
  "dict_append [] k x = []"
| "dict_append ((k', v') # kvs) k x =
     (if k' = k then (k', v' @ [x]) # kvs else (k', v') # dict_append kvs k x)"

text \<open>Lines 51--53 (and 67--69, 84--86): append to the master's list, made first if absent.\<close>

definition add_slave :: "graph \<Rightarrow> ref option \<Rightarrow> ref \<Rightarrow> graph" where
  "add_slave g pmaster x =
     (let g' = (if pmaster \<notin> set (map fst g) then dict_set g pmaster [] else g)
      in dict_append g' pmaster x)"

text \<open>
  A \<^verbatim>\<open>for\<close> loop whose body may not return (the resolver may loop forever): the state is
  threaded through, and \<open>None\<close> is "does not return".
\<close>

fun for_each :: "('x \<Rightarrow> 's \<Rightarrow> 's option) \<Rightarrow> 'x list \<Rightarrow> 's \<Rightarrow> 's option" where
  "for_each body [] s = Some s"
| "for_each body (x # xs) s =
     (case body x s of
        None \<Rightarrow> None
      | Some s' \<Rightarrow> for_each body xs s')"

text \<open>The body of the loop over \<^verbatim>\<open>datas\<close>, lines 44--56, on the graph and the volume list.\<close>

definition data_step :: "scheme \<Rightarrow> heap \<Rightarrow> ref \<Rightarrow> graph \<times> ref list \<Rightarrow> (graph \<times> ref list) option" where
  "data_step sch h d gv =
     (if \<not> plot (plotinfo (h d)) then Some gv
      else
        case resolve_plotmaster h (plotmaster (plotinfo (h d))) of
          None \<Rightarrow> None
        | Some pmaster \<Rightarrow>
            let g' = (if pmaster = None then dict_set (fst gv) (Some d) []
                      else add_slave (fst gv) pmaster d);
                v' = (if volume sch \<and> voloverlay sch = False then snd gv @ [d] else snd gv)
            in Some (g', v'))"

text \<open>
  The body of the loop over \<^verbatim>\<open>obs\<close>, lines 60--69. \<^verbatim>\<open>a or b\<close> is \<^verbatim>\<open>a\<close> when \<^verbatim>\<open>bool(a)\<close>
  holds and \<^verbatim>\<open>b\<close> otherwise; \<^verbatim>\<open>bool(None)\<close> is false.
\<close>

definition py_or :: "heap \<Rightarrow> ref option \<Rightarrow> ref option \<Rightarrow> ref option" where
  "py_or h a b = (case a of None \<Rightarrow> b | Some r \<Rightarrow> if truthy (h r) then a else b)"

definition obs_step :: "heap \<Rightarrow> ref \<Rightarrow> graph \<Rightarrow> graph option" where
  "obs_step h o' g =
     (if \<not> plot (plotinfo (h o')) \<or> plotskip (plotinfo (h o')) then Some g
      else if subplot (plotinfo (h o')) then Some (dict_set g (Some o') [])
      else
        case resolve_plotmaster h (py_or h (plotmaster (plotinfo (h o'))) (Some (data (h o')))) of
          None \<Rightarrow> None
        | Some pmaster \<Rightarrow> Some (add_slave g pmaster o'))"

text \<open>The body of the loop over \<^verbatim>\<open>inds\<close>, lines 72--86.\<close>

definition ind_step :: "heap \<Rightarrow> ind_entry \<Rightarrow> graph \<Rightarrow> graph option" where
  "ind_step h e g =
     (case e of
        LineSingle \<Rightarrow> Some g
      | Plottable i \<Rightarrow>
          if \<not> plot (plotinfo (h i)) \<or> plotskip (plotinfo (h i)) then Some g
          else if subplot (plotinfo (h i)) then Some (dict_set g (Some i) [])
          else
            case resolve_plotmaster h
                   (if plotmaster (plotinfo (h i)) \<noteq> None then plotmaster (plotinfo (h i))
                    else Some (data (h i))) of
              None \<Rightarrow> None
            | Some pmaster \<Rightarrow> Some (add_slave g pmaster i))"

text \<open>
  \<^verbatim>\<open>_build_graph\<close>: the two attributes it assigns, \<^verbatim>\<open>_data_graph\<close> and
  \<^verbatim>\<open>_volume_graphs\<close>, are the result.
\<close>

definition build_graph ::
  "scheme \<Rightarrow> heap \<Rightarrow> ref list \<Rightarrow> ind_entry list \<Rightarrow> ref list \<Rightarrow> (graph \<times> ref list) option" where
  "build_graph sch h datas' inds obs =
     (case for_each (data_step sch h) datas' ([], []) of
        None \<Rightarrow> None
      | Some gv \<Rightarrow>
          (case for_each (obs_step h) obs (fst gv) of
             None \<Rightarrow> None
           | Some g1 \<Rightarrow>
               (case for_each (ind_step h) inds g1 of
                  None \<Rightarrow> None
                | Some g2 \<Rightarrow> Some (g2, snd gv))))"

section \<open>Range resolution (lines 101--118)\<close>

text \<open>
  \<^verbatim>\<open>bisect.bisect_left\<close> and \<^verbatim>\<open>bisect.bisect_right\<close> of the Python standard library, with
  their default bounds \<^verbatim>\<open>lo = 0\<close> and \<^verbatim>\<open>hi = len(a)\<close>: the binary search they run.
\<close>

function bisect_left_loop :: "'a::linorder list \<Rightarrow> 'a \<Rightarrow> nat \<Rightarrow> nat \<Rightarrow> nat" where
  "bisect_left_loop a x lo hi =
     (if lo < hi
      then (let mid = (lo + hi) div 2
            in if a ! mid < x then bisect_left_loop a x (mid + 1) hi
               else bisect_left_loop a x lo mid)
      else lo)"
  by pat_completeness auto
termination
  by (relation "measure (\<lambda>(a, x, lo, hi). hi - lo)") auto

function bisect_right_loop :: "'a::linorder list \<Rightarrow> 'a \<Rightarrow> nat \<Rightarrow> nat \<Rightarrow> nat" where
  "bisect_right_loop a x lo hi =
     (if lo < hi
      then (let mid = (lo + hi) div 2
            in if x < a ! mid then bisect_right_loop a x lo mid
               else bisect_right_loop a x (mid + 1) hi)
      else lo)"
  by pat_completeness auto
termination
  by (relation "measure (\<lambda>(a, x, lo, hi). hi - lo)") auto

definition bisect_left :: "'a::linorder list \<Rightarrow> 'a \<Rightarrow> nat" where
  "bisect_left a x = bisect_left_loop a x 0 (length a)"

definition bisect_right :: "'a::linorder list \<Rightarrow> 'a \<Rightarrow> nat" where
  "bisect_right a x = bisect_right_loop a x 0 (length a)"

text \<open>
  \<^verbatim>\<open>_get_start_end\<close>. \<open>date2num\<close> is \<^verbatim>\<open>bt.date2num\<close> of the host framework and
  \<open>st_dtime\<close> is \<^verbatim>\<open>strategy.lines.datetime.plot()\<close>. The local variables \<^verbatim>\<open>start\<close> and
  \<^verbatim>\<open>end\<close> change type on the way (\<open>None\<close>, then an index or a date, then an index).
\<close>

definition get_start_end ::
  "('d \<Rightarrow> 'a::linorder) \<Rightarrow> 'a list \<Rightarrow> 'd bound option \<Rightarrow> 'd bound option \<Rightarrow> int \<times> int" where
  "get_start_end date2num st_dtime start end' =
     (let start1 = (case start of None \<Rightarrow> Index 0 | Some b \<Rightarrow> b);
          end1 = (case end' of None \<Rightarrow> Index (int (length st_dtime)) | Some b \<Rightarrow> b);
          start2 = (case start1 of
                      Date d \<Rightarrow> int (bisect_left st_dtime (date2num d))
                    | Index i \<Rightarrow> i);
          end2 = (case end1 of
                    Date d \<Rightarrow> int (bisect_right st_dtime (date2num d))
                  | Index i \<Rightarrow> i);
          end3 = (if end2 < 0 then int (length st_dtime) + 1 + end2 else end2)
      in (start2, end3))"

text \<open>The indices of the half-open index range \<^verbatim>\<open>[start, end)\<close> that fall into a series.\<close>

definition index_range :: "int \<times> int \<Rightarrow> 'a list \<Rightarrow> nat list" where
  "index_range se xs = [i \<leftarrow> [0 ..< length xs]. fst se \<le> int i \<and> int i < snd se]"

section \<open>The render call (lines 120--182)\<close>

text \<open>
  Modelled from the spec: the constructor and the \<^verbatim>\<open>plot\<close> method of \<^verbatim>\<open>Figure\<close>
  (\<^verbatim>\<open>figure.py\<close> is not part of the sources at hand). A new figure has plotted nothing, has
  the x-axis labels that bokeh shows by default, and owns its \<^verbatim>\<open>x_range\<close>; plotting a series
  adds it, with its overlay parent, to the figure's series list.
\<close>

definition new_figure :: "'d cds option \<Rightarrow> int \<Rightarrow> int \<Rightarrow> kind option \<Rightarrow> bool \<Rightarrow> nat \<Rightarrow> 'd figure" where
  "new_figure source start end' mtype pabove pos =
     \<lparr>fig_cds = source, fig_start = start, fig_end = end', master_type = mtype,
      fig_plotabove = pabove, plotted = [], legend_click_policy = None,
      legend_background_fill_color = None, legend_label_text_color = None,
      x_range = pos, xaxis_visible = True, hovertips = False\<rparr>"

definition figure_plot :: "'d figure \<Rightarrow> ref \<Rightarrow> ref option \<Rightarrow> 'd figure" where
  "figure_plot bf obj master = bf\<lparr>plotted := plotted bf @ [(obj, master)]\<rparr>"

text \<open>
  Lines 149--157: one figure per item of the plot graph, in the order of the dictionary.
  \<open>pos\<close> is the position the next figure will have in the session's figure list. A key
  \<open>None\<close> has no \<^verbatim>\<open>plotinfo\<close>, which is an \<^verbatim>\<open>AttributeError\<close> at line 150.
\<close>

fun master_figures ::
  "heap \<Rightarrow> 'd cds option \<Rightarrow> int \<Rightarrow> int \<Rightarrow> nat \<Rightarrow> graph \<Rightarrow> exn + 'd figure list" where
  "master_figures h source start end' pos [] = Inr []"
| "master_figures h source start end' pos ((master, slaves) # items) =
     (case master of
        None \<Rightarrow> Inl AttributeError
      | Some m \<Rightarrow>
          let pabove = plotabove (plotinfo (h m));
              bf = new_figure source start end' (Some (kind (h m))) pabove pos;
              bf1 = figure_plot bf m None;
              bf2 = foldl (\<lambda>f s. figure_plot f s (Some m)) bf1 slaves
          in case master_figures h source start end' (pos + 1) items of
               Inl e \<Rightarrow> Inl e
             | Inr fs \<Rightarrow> Inr (bf2 # fs))"

text \<open>Lines 164--169: the legend settings of the scheme, on every figure.\<close>

definition apply_legend :: "scheme \<Rightarrow> 'd figure \<Rightarrow> 'd figure" where
  "apply_legend sch f =
     f\<lparr>legend_click_policy := Some (legend_click sch),
       legend_background_fill_color := Some (legend_background_color sch),
       legend_label_text_color := Some (legend_text_color sch)\<rparr>"

text \<open>Lines 172--173: every figure after the first takes the \<^verbatim>\<open>x_range\<close> of the first.\<close>

definition link_axis :: "'d figure list \<Rightarrow> 'd figure list" where
  "link_axis fs =
     (case fs of
        [] \<Rightarrow> []
      | f0 # rest \<Rightarrow> f0 # map (\<lambda>f. f\<lparr>x_range := x_range f0\<rparr>) rest)"

text \<open>
  Lines 177--178: \<^verbatim>\<open>f.figure.xaxis.visible = False if i <= len(strat_figures) else True\<close>
  for every \<^verbatim>\<open>i, f\<close> of \<^verbatim>\<open>enumerate(strat_figures)\<close>.
\<close>

definition xaxis_visibility :: "'d figure list \<Rightarrow> 'd figure list" where
  "xaxis_visibility fs =
     map (\<lambda>(i, f). f\<lparr>xaxis_visible := (if i \<le> length fs then False else True)\<rparr>)
         (enumerate 0 fs)"

text \<open>
  Modelled from the spec: \<^verbatim>\<open>HoverContainer.apply_hovertips\<close> (\<^verbatim>\<open>figure.py\<close>), which per the
  spec adds tooltip bindings to the figures.
\<close>

definition apply_hovertips :: "'d figure list \<Rightarrow> 'd figure list" where
  "apply_hovertips fs = map (\<lambda>f. f\<lparr>hovertips := True\<rparr>) fs"

text \<open>
  \<^verbatim>\<open>Bokeh.plot\<close>, named \<open>bokeh_plot\<close> here since \<open>plot\<close> is the attribute of
  \<^verbatim>\<open>plotinfo\<close>. The result is the outcome of the call with the \<^verbatim>\<open>Bokeh\<close> object as the call
  leaves it; \<open>None\<close> is "does not return". The figures of lines 159--161 for the volume list
  are local to the loop and kept nowhere, so they leave no trace in the object.
\<close>

definition bokeh_plot ::
  "('d \<Rightarrow> 'a::linorder) \<Rightarrow> heap \<Rightarrow> ('an, 'd) bokeh \<Rightarrow> ('a, 'an) strategy \<Rightarrow> int \<Rightarrow> int \<Rightarrow> bool \<Rightarrow>
   'd bound option \<Rightarrow> 'd bound option \<Rightarrow> string option \<Rightarrow> (outcome \<times> ('an, 'd) bokeh) option" where
  "bokeh_plot date2num h self strategy figid numfigs iplot start end' use =
     (if numfigs > 1 then Some (Raised (Exception ''numfigs must be 1''), self)
      else if use \<noteq> None
      then Some (Raised (Exception (''Different backends by '' @ [CHR 0x27] @ ''use'' @
                                     [CHR 0x27] @ '' not supported'')), self)
      else if datas strategy = [] then Some (Returned, self)
      else if len strategy = 0 then Some (Returned, self)
      else
        let self1 = self\<lparr>analyzers := analyzers self @ [strategy_analyzers strategy]\<rparr>;
            self2 = (if cds self1 = None
                     then self1\<lparr>cds := Some (ColumnDataSource (hd (datas strategy)) start end')\<rparr>
                     else self1)
        in case build_graph (p_scheme self2) h (datas strategy) (getindicators strategy)
                  (getobservers strategy) of
             None \<Rightarrow> None
           | Some gv \<Rightarrow>
               let self3 = self2\<lparr>data_graph := Some (fst gv), volume_graphs := Some (snd gv)\<rparr>;
                   se = get_start_end date2num (datetime_plot strategy) start end'
               in case master_figures h (cds self3) (fst se) (snd se)
                         (length (figures self3)) (fst gv) of
                    Inl e \<Rightarrow> Some (Raised e, self3)
                  | Inr strat_figures \<Rightarrow>
                      let fs1 = map (apply_legend (p_scheme self3)) strat_figures;
                          fs2 = link_axis fs1;
                          fs3 = (if xaxis_pos (p_scheme self3) = ''bottom''
                                 then xaxis_visibility fs2 else fs2);
                          fs4 = apply_hovertips fs3
                      in Some (Returned, self3\<lparr>figures := figures self3 @ fs4\<rparr>))"

text \<open>The object \<^verbatim>\<open>__init__\<close> leaves (lines 30--35), for a given scheme.\<close>

definition init :: "scheme \<Rightarrow> ('an, 'd) bokeh" where
  "init sch =
     \<lparr>figures = [], data_graph = None, volume_graphs = None, cds = None, analyzers = [],
      p_scheme = sch\<rparr>"

text \<open>
  The arguments of one \<^verbatim>\<open>plot\<close> call, and a render session: \<^verbatim>\<open>plot\<close> calls on the same object,
  one after the other, whatever the outcome of each.
\<close>

record ('a, 'an, 'd) plot_args =
  arg_strategy :: "('a, 'an) strategy"
  arg_figid :: int
  arg_numfigs :: int
  arg_iplot :: bool
  arg_start :: "'d bound option"
  arg_end :: "'d bound option"
  arg_use :: "string option"

definition plot_call ::
  "('d \<Rightarrow> 'a::linorder) \<Rightarrow> heap \<Rightarrow> ('a, 'an, 'd) plot_args \<Rightarrow> ('an, 'd) bokeh \<Rightarrow> ('an, 'd) bokeh option" where
  "plot_call date2num h c self =
     map_option snd
       (bokeh_plot date2num h self (arg_strategy c) (arg_figid c) (arg_numfigs c) (arg_iplot c)
          (arg_start c) (arg_end c) (arg_use c))"

definition session ::
  "('d \<Rightarrow> 'a::linorder) \<Rightarrow> heap \<Rightarrow> ('a, 'an, 'd) plot_args list \<Rightarrow> ('an, 'd) bokeh \<Rightarrow> ('an, 'd) bokeh option" where
  "session date2num h calls self = for_each (plot_call date2num h) calls self"

section \<open>Notions the properties are stated with\<close>

text \<open>
  A plot-master chain is acyclic when the objects reached from \<open>obj\<close> along the links are
  finitely many and none is reached twice.
\<close>

definition chain_acyclic :: "heap \<Rightarrow> ref \<Rightarrow> bool" where
  "chain_acyclic h obj \<longleftrightarrow>
     finite {m. \<exists>n. follow h n obj = Some m} \<and>
     (\<forall>i j. i < j \<longrightarrow> follow h j obj = None \<or> follow h i obj \<noteq> follow h j obj)"

text \<open>
  The groups of a plot graph in which a plottable appears, as the master or among the slaves,
  and the slave list of a master (empty when it is no key).
\<close>

definition groups_of :: "graph \<Rightarrow> ref \<Rightarrow> ref option list" where
  "groups_of g x = [fst kv. kv \<leftarrow> g, fst kv = Some x \<or> x \<in> set (snd kv)]"

definition slaves_of :: "graph \<Rightarrow> ref option \<Rightarrow> ref list" where
  "slaves_of g k = (case map_of g k of None \<Rightarrow> [] | Some l \<Rightarrow> l)"

text \<open>How often a plottable occurs in the slave lists of a graph, all lists taken together.\<close>

definition slave_count :: "graph \<Rightarrow> ref \<Rightarrow> nat" where
  "slave_count g x = sum_list (map (\<lambda>kv. count_list (snd kv) x) g)"

text \<open>
  The objects the three loops of the graph builder look at, in the order they do: the data
  feeds, then the observers, then the indicators that have a \<^verbatim>\<open>plotinfo\<close>.
\<close>

datatype entry = Data ref | Obs ref | Ind ref

fun ref_of :: "entry \<Rightarrow> ref" where
  "ref_of (Data d) = d"
| "ref_of (Obs x) = x"
| "ref_of (Ind i) = i"

definition entries :: "ref list \<Rightarrow> ind_entry list \<Rightarrow> ref list \<Rightarrow> entry list" where
  "entries ds inds obs =
     map Data ds @ map Obs obs @ concat (map (\<lambda>e. case e of LineSingle \<Rightarrow> [] | Plottable i \<Rightarrow> [Ind i]) inds)"

text \<open>
  What the loops test: whether the entry is plotted at all (lines 44, 60, 76; the skip flag is
  read for observers and indicators only), whether it gets a group of its own (a data feed
  without plot master, line 48; a subplot, lines 63 and 80), and, if not, which object is
  handed to the resolver (lines 47, 66, 83).
\<close>

fun enabled :: "heap \<Rightarrow> entry \<Rightarrow> bool" where
  "enabled h (Data d) = plot (plotinfo (h d))"
| "enabled h (Obs x) = (plot (plotinfo (h x)) \<and> \<not> plotskip (plotinfo (h x)))"
| "enabled h (Ind i) = (plot (plotinfo (h i)) \<and> \<not> plotskip (plotinfo (h i)))"

fun own_group :: "heap \<Rightarrow> entry \<Rightarrow> bool" where
  "own_group h (Data d) = (plotmaster (plotinfo (h d)) = None)"
| "own_group h (Obs x) = subplot (plotinfo (h x))"
| "own_group h (Ind i) = subplot (plotinfo (h i))"

fun master_arg :: "heap \<Rightarrow> entry \<Rightarrow> ref option" where
  "master_arg h (Data d) = plotmaster (plotinfo (h d))"
| "master_arg h (Obs x) = py_or h (plotmaster (plotinfo (h x))) (Some (data (h x)))"
| "master_arg h (Ind i) =
     (if plotmaster (plotinfo (h i)) \<noteq> None then plotmaster (plotinfo (h i))
      else Some (data (h i)))"

text \<open>
  What a loop body does to the graph for one entry: nothing, a fresh group for the entry, or
  the entry appended to the group of its resolved master; \<open>None\<close> when the resolver does not
  return.
\<close>

datatype action = Skip | Start ref | Attach "ref option" ref

definition action :: "heap \<Rightarrow> entry \<Rightarrow> action option" where
  "action h e =
     (if \<not> enabled h e then Some Skip
      else if own_group h e then Some (Start (ref_of e))
      else map_option (\<lambda>pmaster. Attach pmaster (ref_of e))
             (resolve_plotmaster h (master_arg h e)))"

fun apply_action :: "graph \<Rightarrow> action \<Rightarrow> graph" where
  "apply_action g Skip = g"
| "apply_action g (Start x) = dict_set g (Some x) []"
| "apply_action g (Attach pmaster x) = add_slave g pmaster x"

text \<open>
  A small strategy to evaluate the definitions on: the data feeds 0 and 1 (1 is overlaid on
  0), the indicators 2 (own subplot) and 3 (overlaid on 1), the observers 4 (skipped) and 5
  (on data feed 1), and the data feed 6, which is not plotted.
\<close>

definition new_obj :: "kind \<Rightarrow> bool \<Rightarrow> bool \<Rightarrow> bool \<Rightarrow> ref option \<Rightarrow> ref \<Rightarrow> plottable" where
  "new_obj k pl skip sub pm d =
     \<lparr>plotinfo = \<lparr>plot = pl, plotskip = skip, subplot = sub, plotmaster = pm, plotabove = False\<rparr>,
      data = d, kind = k, truthy = True\<rparr>"

definition ex_heap :: heap where
  "ex_heap r =
     (if r = 0 then new_obj DataBase True False False None 0
      else if r = 1 then new_obj DataBase True False False (Some 0) 1
      else if r = 2 then new_obj Indicator True False True None 0
      else if r = 3 then new_obj Indicator True False False (Some 1) 0
      else if r = 4 then new_obj Observer True True False None 0
      else if r = 5 then new_obj Observer True False False None 1
      else new_obj DataBase False False False None r)"

text \<open>A scheme, the strategy on these objects, and a strategy without data feeds.\<close>

definition ex_scheme :: scheme where
  "ex_scheme =
     \<lparr>volume = True, voloverlay = False, xaxis_pos = ''bottom'', legend_click = ''mute'',
      legend_background_color = ''gray'', legend_text_color = ''white''\<rparr>"

definition ex_strategy :: "(int, nat) strategy" where
  "ex_strategy =
     \<lparr>datas = [0, 1], getindicators = [LineSingle, Plottable 2, Plottable 3],
      getobservers = [4, 5], len = 3, strategy_analyzers = [(''sharpe'', 4)],
      datetime_plot = [1, 2, 3]\<rparr>"

definition no_datas :: "(int, nat) strategy" where
  "no_datas =
     \<lparr>datas = [], getindicators = [], getobservers = [], len = 0, strategy_analyzers = [],
      datetime_plot = []\<rparr>"

text \<open>A \<^verbatim>\<open>plot\<close> call for this strategy with a given \<^verbatim>\<open>start\<close>.\<close>

definition ex_call :: "int bound option \<Rightarrow> (int, nat, int) plot_args" where
  "ex_call start =
     \<lparr>arg_strategy = ex_strategy, arg_figid = 0, arg_numfigs = 1, arg_iplot = True,
      arg_start = start, arg_end = None, arg_use = None\<rparr>"

section \<open>Properties of the resolver\<close>

lemma resolve_loop_root:
  "plotmaster (plotinfo (h r)) = None \<Longrightarrow> resolve_loop h r = Some r"
  by (subst resolve_loop.simps) simp

lemma resolve_loop_step:
  "plotmaster (plotinfo (h r)) = Some pm \<Longrightarrow> resolve_loop h r = resolve_loop h pm"
  by (subst resolve_loop.simps) simp

lemma resolve_loop_follow:
  "follow h n r = Some root \<Longrightarrow> plotmaster (plotinfo (h root)) = None \<Longrightarrow>
   resolve_loop h r = Some root"
proof (induction n arbitrary: r)
  case 0
  then show ?case by (simp add: resolve_loop_root)
next
  case (Suc n)
  then show ?case
    by (auto simp: resolve_loop_step split: option.splits)
qed

lemma follow_add:
  "follow h (k + j) r = (case follow h k r of None \<Rightarrow> None | Some m \<Rightarrow> follow h j m)"
  by (induction k arbitrary: r) (auto split: option.splits)

lemma resolve_loop_returns:
  assumes "resolve_loop h r = Some root"
  shows "\<exists>n. follow h n r = Some root \<and> plotmaster (plotinfo (h root)) = None"
  using assms
proof (induction rule: resolve_loop.raw_induct [rotated 1, consumes 1])
  case (1 resolve_loop' h r root)
  show ?case
  proof (cases "plotmaster (plotinfo (h r))")
    case None
    with 1(2) have "follow h 0 r = Some root \<and> plotmaster (plotinfo (h root)) = None" by simp
    then show ?thesis by blast
  next
    case (Some pm)
    with 1(2) have "resolve_loop' h pm = Some root" by simp
    then obtain n where "follow h n pm = Some root \<and> plotmaster (plotinfo (h root)) = None"
      using 1(1) by blast
    with Some have "follow h (Suc n) r = Some root \<and> plotmaster (plotinfo (h root)) = None"
      by simp
    then show ?thesis by blast
  qed
qed

lemma resolve_loop_iff:
  "resolve_loop h r = Some root \<longleftrightarrow>
   (\<exists>n. follow h n r = Some root \<and> plotmaster (plotinfo (h root)) = None)"
  using resolve_loop_returns resolve_loop_follow by blast

text \<open>
  Claim C8. An object without plot master resolves to itself. When the chain of plot-master
  links from \<open>obj\<close> ends after \<open>n\<close> links at \<open>root\<close>, an object without plot master, the
  resolver returns, and returns \<open>root\<close>, for \<open>obj\<close> and for every object \<open>mid\<close> met on the
  way. Resolving \<open>None\<close> returns \<open>None\<close>.
\<close>

theorem resolve_plotmaster_terminal_root:
  "(plotmaster (plotinfo (h obj)) = None \<longrightarrow> resolve_plotmaster h (Some obj) = Some (Some obj))
   \<and> (follow h n obj = Some root \<and> plotmaster (plotinfo (h root)) = None \<and>
        k \<le> n \<and> follow h k obj = Some mid \<longrightarrow>
          resolve_plotmaster h (Some obj) = Some (Some root) \<and>
          resolve_plotmaster h (Some mid) = Some (Some root))
   \<and> resolve_plotmaster h None = Some None"
proof -
  have a: "resolve_plotmaster h (Some obj) = Some (Some obj)"
    if "plotmaster (plotinfo (h obj)) = None"
    using that by (simp add: resolve_plotmaster_def resolve_loop_root)
  have b: "resolve_plotmaster h (Some obj) = Some (Some root) \<and>
           resolve_plotmaster h (Some mid) = Some (Some root)"
    if f: "follow h n obj = Some root" and r: "plotmaster (plotinfo (h root)) = None"
      and k: "k \<le> n" and m: "follow h k obj = Some mid"
  proof -
    from k obtain j where n: "n = k + j" using le_Suc_ex by blast
    from f m have "follow h j mid = Some root"
      unfolding n by (simp add: follow_add)
    then have "resolve_loop h mid = Some root" using r by (rule resolve_loop_follow)
    moreover from f r have "resolve_loop h obj = Some root" by (rule resolve_loop_follow)
    ultimately show ?thesis by (simp add: resolve_plotmaster_def)
  qed
  have c: "resolve_plotmaster h None = Some None"
    by (simp add: resolve_plotmaster_def)
  show ?thesis using a b c by blast
qed

text \<open>An acyclic chain is one that ends at a root, so C8 covers every acyclic chain.\<close>

lemma follow_Suc_end:
  "follow h (Suc n) r =
     (case follow h n r of None \<Rightarrow> None | Some m \<Rightarrow> plotmaster (plotinfo (h m)))"
  using follow_add [of h n 1 r] by (simp split: option.splits)

lemma chain_acyclic_ends:
  assumes "chain_acyclic h obj"
  shows "\<exists>n root. follow h n obj = Some root \<and> plotmaster (plotinfo (h root)) = None"
proof (rule ccontr)
  assume no: "\<not> ?thesis"
  have all: "follow h n obj \<noteq> None" for n
  proof (induction n)
    case 0
    show ?case by simp
  next
    case (Suc n)
    then obtain m where m: "follow h n obj = Some m" by blast
    have "plotmaster (plotinfo (h m)) \<noteq> None"
    proof
      assume "plotmaster (plotinfo (h m)) = None"
      with m have "\<exists>n root. follow h n obj = Some root \<and> plotmaster (plotinfo (h root)) = None"
        by blast
      with no show False by simp
    qed
    with m show ?case by (simp add: follow_Suc_end del: follow.simps)
  qed
  let ?f = "\<lambda>n. the (follow h n obj)"
  have "inj ?f"
  proof (rule injI)
    fix i j assume e: "?f i = ?f j"
    from all [of i] all [of j] e have fe: "follow h i obj = follow h j obj" by auto
    show "i = j"
    proof (rule ccontr)
      assume "i \<noteq> j"
      then consider "i < j" | "j < i" by linarith
      then show False
        using assms fe all unfolding chain_acyclic_def by (cases; metis)
    qed
  qed
  then have "infinite (range ?f)"
    using finite_imageD by blast
  moreover have "range ?f \<subseteq> {m. \<exists>n. follow h n obj = Some m}"
    using all by auto
  ultimately show False
    using assms finite_subset unfolding chain_acyclic_def by blast
qed

text \<open>Evaluating the loop on a given heap.\<close>

lemma resolve_loop_eval:
  "resolve_loop h r =
     (if plotmaster (plotinfo (h r)) = None then Some r
      else resolve_loop h (the (plotmaster (plotinfo (h r)))))"
  by (subst resolve_loop.simps) (simp split: option.splits)

text \<open>
  The statement of C8 on the chain from indicator 3 over data feed 1 to data feed 0.
\<close>

theorem resolve_plotmaster_terminal_root_witness:
  "resolve_plotmaster ex_heap (Some 0) = Some (Some 0)
   \<and> resolve_plotmaster ex_heap (Some 3) = Some (Some 0)
   \<and> resolve_plotmaster ex_heap (Some 1) = Some (Some 0)"
proof -
  have root: "plotmaster (plotinfo (ex_heap 0)) = None"
    by (simp add: ex_heap_def new_obj_def)
  have chain: "follow ex_heap 2 3 = Some 0 \<and> plotmaster (plotinfo (ex_heap 0)) = None \<and>
               (1::nat) \<le> 2 \<and> follow ex_heap 1 3 = Some 1"
    by (simp add: ex_heap_def new_obj_def numeral_2_eq_2)
  show ?thesis
    using resolve_plotmaster_terminal_root [of ex_heap 0 2 0 1 1]
      resolve_plotmaster_terminal_root [of ex_heap 3 2 0 1 1] root chain
    by blast
qed

section \<open>Properties of the range resolution\<close>

text \<open>
  The invariant of the binary search on a sorted list: left of \<open>lo\<close> everything is below
  \<open>x\<close>, from \<open>hi\<close> on nothing is.
\<close>

lemma bisect_left_loop_inv:
  assumes "sorted a" "lo \<le> hi" "hi \<le> length a"
    and "\<forall>i<lo. a ! i < x" and "\<forall>i. hi \<le> i \<and> i < length a \<longrightarrow> x \<le> a ! i"
  shows "bisect_left_loop a x lo hi \<le> length a \<and>
         (\<forall>i<length a. i < bisect_left_loop a x lo hi \<longleftrightarrow> a ! i < x)"
  using assms
proof (induction a x lo hi rule: bisect_left_loop.induct)
  case (1 a x lo hi)
  show ?case
  proof (cases "lo < hi")
    case False
    with 1(4) have eq: "lo = hi" by simp
    have r: "bisect_left_loop a x lo hi = lo"
      using False by (subst bisect_left_loop.simps) simp
    show ?thesis
      unfolding r using 1(5,6,7) eq by (metis leD leI)
  next
    case True
    define mid where "mid = (lo + hi) div 2"
    have m: "lo \<le> mid" "mid < hi" using True by (simp_all add: mid_def)
    show ?thesis
    proof (cases "a ! mid < x")
      case lt: True
      have r: "bisect_left_loop a x lo hi = bisect_left_loop a x (mid + 1) hi"
        using True lt by (subst bisect_left_loop.simps) (simp add: mid_def Let_def)
      have "\<forall>i<mid + 1. a ! i < x"
      proof (intro allI impI)
        fix i assume "i < mid + 1"
        then have "a ! i \<le> a ! mid"
          using 1(3) m 1(5) by (simp add: sorted_iff_nth_mono)
        with lt show "a ! i < x" by simp
      qed
      with 1(1) [OF True mid_def lt 1(3)] m 1(5,7) show ?thesis
        unfolding r by simp
    next
      case ge: False
      have r: "bisect_left_loop a x lo hi = bisect_left_loop a x lo mid"
        using True ge by (subst bisect_left_loop.simps) (simp add: mid_def Let_def)
      have "\<forall>i. mid \<le> i \<and> i < length a \<longrightarrow> x \<le> a ! i"
      proof (intro allI impI)
        fix i assume "mid \<le> i \<and> i < length a"
        then have "a ! mid \<le> a ! i"
          using 1(3) by (simp add: sorted_iff_nth_mono)
        with ge show "x \<le> a ! i" by simp
      qed
      with 1(2) [OF True mid_def ge 1(3)] m 1(5,6) show ?thesis
        unfolding r by simp
    qed
  qed
qed

lemma bisect_right_loop_inv:
  assumes "sorted a" "lo \<le> hi" "hi \<le> length a"
    and "\<forall>i<lo. a ! i \<le> x" and "\<forall>i. hi \<le> i \<and> i < length a \<longrightarrow> x < a ! i"
  shows "bisect_right_loop a x lo hi \<le> length a \<and>
         (\<forall>i<length a. i < bisect_right_loop a x lo hi \<longleftrightarrow> a ! i \<le> x)"
  using assms
proof (induction a x lo hi rule: bisect_right_loop.induct)
  case (1 a x lo hi)
  show ?case
  proof (cases "lo < hi")
    case False
    with 1(4) have eq: "lo = hi" by simp
    have r: "bisect_right_loop a x lo hi = lo"
      using False by (subst bisect_right_loop.simps) simp
    show ?thesis
      unfolding r using 1(5,6,7) eq by (metis leD leI)
  next
    case True
    define mid where "mid = (lo + hi) div 2"
    have m: "lo \<le> mid" "mid < hi" using True by (simp_all add: mid_def)
    show ?thesis
    proof (cases "x < a ! mid")
      case lt: True
      have r: "bisect_right_loop a x lo hi = bisect_right_loop a x lo mid"
        using True lt by (subst bisect_right_loop.simps) (simp add: mid_def Let_def)
      have "\<forall>i. mid \<le> i \<and> i < length a \<longrightarrow> x < a ! i"
      proof (intro allI impI)
        fix i assume "mid \<le> i \<and> i < length a"
        then have "a ! mid \<le> a ! i"
          using 1(3) by (simp add: sorted_iff_nth_mono)
        with lt show "x < a ! i" by simp
      qed
      with 1(1) [OF True mid_def lt 1(3)] m 1(5,6) show ?thesis
        unfolding r by simp
    next
      case ge: False
      have r: "bisect_right_loop a x lo hi = bisect_right_loop a x (mid + 1) hi"
        using True ge by (subst bisect_right_loop.simps) (simp add: mid_def Let_def)
      have "\<forall>i<mid + 1. a ! i \<le> x"
      proof (intro allI impI)
        fix i assume "i < mid + 1"
        then have "a ! i \<le> a ! mid"
          using 1(3) m 1(5) by (simp add: sorted_iff_nth_mono)
        with ge show "a ! i \<le> x" by simp
      qed
      with 1(2) [OF True mid_def ge 1(3)] m 1(5,7) show ?thesis
        unfolding r by simp
    qed
  qed
qed

lemma bisect_left_sorted:
  "sorted a \<Longrightarrow> bisect_left a x \<le> length a \<and> (\<forall>i<length a. i < bisect_left a x \<longleftrightarrow> a ! i < x)"
  unfolding bisect_left_def by (rule bisect_left_loop_inv) auto

lemma bisect_right_sorted:
  "sorted a \<Longrightarrow> bisect_right a x \<le> length a \<and> (\<forall>i<length a. i < bisect_right a x \<longleftrightarrow> a ! i \<le> x)"
  unfolding bisect_right_def by (rule bisect_right_loop_inv) auto

text \<open>
  Claim C3, as amended. On a sorted datetime series, with \<^verbatim>\<open>start\<close> and \<^verbatim>\<open>end\<close> given as
  calendar dates, the resolved indices are the left-biased search result for \<^verbatim>\<open>start\<close> and
  the right-biased one for \<^verbatim>\<open>end\<close>, both within the series, and the index range
  \<^verbatim>\<open>[start_idx, end_idx)\<close> holds exactly the time points whose date numbers lie in the closed
  interval from \<^verbatim>\<open>start\<close> to \<^verbatim>\<open>end\<close>: a point at \<^verbatim>\<open>end\<close> itself is included.
\<close>

theorem get_start_end_dates:
  assumes "sorted st_dtime"
  shows "set (index_range (get_start_end date2num st_dtime (Some (Date s)) (Some (Date e))) st_dtime) =
           {i. i < length st_dtime \<and> date2num s \<le> st_dtime ! i \<and> st_dtime ! i \<le> date2num e}
         \<and> get_start_end date2num st_dtime (Some (Date s)) (Some (Date e)) =
             (int (bisect_left st_dtime (date2num s)), int (bisect_right st_dtime (date2num e)))
         \<and> bisect_left st_dtime (date2num s) \<le> length st_dtime
         \<and> bisect_right st_dtime (date2num e) \<le> length st_dtime"
proof -
  have g: "get_start_end date2num st_dtime (Some (Date s)) (Some (Date e)) =
             (int (bisect_left st_dtime (date2num s)), int (bisect_right st_dtime (date2num e)))"
    by (simp add: get_start_end_def Let_def)
  note l = bisect_left_sorted [OF assms, of "date2num s"]
  note r = bisect_right_sorted [OF assms, of "date2num e"]
  have "set (index_range (int (bisect_left st_dtime (date2num s)), int (bisect_right st_dtime (date2num e))) st_dtime) =
           {i. i < length st_dtime \<and> date2num s \<le> st_dtime ! i \<and> st_dtime ! i \<le> date2num e}"
    using l r by (auto simp: index_range_def not_less)
  with g l r show ?thesis by simp
qed

text \<open>The statement of C3 on the series 1, 2, 2, 3, 5 with the dates 2 and 3.\<close>

theorem get_start_end_dates_witness:
  "index_range (get_start_end (\<lambda>d. d) [1, 2, 2, 3, 5 :: int] (Some (Date 2)) (Some (Date 3)))
     [1, 2, 2, 3, 5 :: int] = [1, 2, 3]"
proof -
  have s: "sorted [1, 2, 2, 3, 5 :: int]" by simp
  have "get_start_end (\<lambda>d. d) [1, 2, 2, 3, 5 :: int] (Some (Date 2)) (Some (Date 3)) = (1, 4)"
    using get_start_end_dates [OF s, of "\<lambda>d. d" 2 3]
    by (simp add: bisect_left_def bisect_right_def bisect_left_loop.simps bisect_right_loop.simps)
  then show ?thesis
    by (simp add: index_range_def upt_rec)
qed

text \<open>
  On the series 1, 2, 3 with \<^verbatim>\<open>start\<close> 1 and \<^verbatim>\<open>end\<close> 2 the resolved range holds the indices
  0 and 1, while only index 0 has its date in the half-open interval of claim C3.
\<close>

theorem get_start_end_half_open_counterexample:
  "index_range (get_start_end (\<lambda>d. d) [1, 2, 3 :: int] (Some (Date 1)) (Some (Date 2)))
     [1, 2, 3 :: int] = [0, 1]
   \<and> [i \<leftarrow> [0 ..< length [1, 2, 3 :: int]]. 1 \<le> [1, 2, 3 :: int] ! i \<and> [1, 2, 3 :: int] ! i < 2] = [0]"
  by (simp add: get_start_end_def index_range_def bisect_left_def bisect_right_def
        bisect_left_loop.simps bisect_right_loop.simps upt_rec)

section \<open>Properties of the graph builder\<close>

text \<open>The definitions to unfold when the graph builder is evaluated on the example objects.\<close>

lemmas build_graph_eval =
  build_graph_def data_step_def obs_step_def ind_step_def add_slave_def py_or_def
  resolve_plotmaster_def resolve_loop_eval ex_heap_def new_obj_def

subsection \<open>The dictionary operations\<close>

lemma keys_dict_set:
  "map fst (dict_set g k v) = (if k \<in> set (map fst g) then map fst g else map fst g @ [k])"
proof (induction g)
  case Nil
  show ?case by simp
next
  case (Cons kv g)
  obtain k' v' where kv: "kv = (k', v')" by (cases kv)
  show ?case
  proof (cases "k' = k")
    case True
    then show ?thesis by (simp add: kv)
  next
    case False
    then show ?thesis using Cons.IH by (simp add: kv)
  qed
qed

lemma keys_dict_append: "map fst (dict_append g k x) = map fst g"
  by (induction g) auto

lemma map_of_dict_set:
  "map_of (dict_set g k v) k' = (if k' = k then Some v else map_of g k')"
  by (induction g) auto

lemma map_of_dict_append:
  "map_of (dict_append g k x) k' =
     (if k' = k then map_option (\<lambda>l. l @ [x]) (map_of g k) else map_of g k')"
  by (induction g) auto

lemma keys_add_slave:
  "map fst (add_slave g k x) = (if k \<in> set (map fst g) then map fst g else map fst g @ [k])"
  by (simp add: add_slave_def keys_dict_append keys_dict_set)

lemma map_of_add_slave:
  "map_of (add_slave g k x) k' =
     (if k' = k then Some (slaves_of g k @ [x]) else map_of g k')"
proof (cases "k \<in> set (map fst g)")
  case True
  then obtain l where "map_of g k = Some l"
    by (metis map_of_eq_None_iff not_Some_eq set_map)
  with True show ?thesis
    by (simp add: add_slave_def map_of_dict_append slaves_of_def)
next
  case False
  then have "map_of g k = None" by (simp add: map_of_eq_None_iff)
  with False show ?thesis
    by (simp add: add_slave_def map_of_dict_append map_of_dict_set slaves_of_def)
qed

lemma keys_apply_action:
  "set (map fst (apply_action g a)) =
     set (map fst g) \<union> (case a of Skip \<Rightarrow> {} | Start x \<Rightarrow> {Some x} | Attach k x \<Rightarrow> {k})"
  by (cases a) (auto simp: keys_dict_set keys_add_slave)

lemma distinct_apply_action:
  "distinct (map fst g) \<Longrightarrow> distinct (map fst (apply_action g a))"
  by (cases a) (auto simp: keys_dict_set keys_add_slave)

lemma map_of_apply_action:
  "map_of (apply_action g a) k =
    (case a of
       Skip \<Rightarrow> map_of g k
     | Start x \<Rightarrow> if k = Some x then Some [] else map_of g k
     | Attach m x \<Rightarrow> if k = m then Some (slaves_of g m @ [x]) else map_of g k)"
  by (cases a) (simp_all add: map_of_dict_set map_of_add_slave)

lemma slave_count_dict_set: "slave_count (dict_set g k []) x \<le> slave_count g x"
  by (induction g) (auto simp: slave_count_def)

lemma slave_count_dict_append:
  "slave_count (dict_append g k y) x \<le> slave_count g x + (if y = x then 1 else 0)"
  by (induction g) (auto simp: slave_count_def)

lemma slave_count_apply_action:
  "slave_count (apply_action g a) x \<le>
     slave_count g x + (case a of Attach k y \<Rightarrow> if y = x then 1 else 0 | _ \<Rightarrow> 0)"
proof (cases a)
  case Skip
  then show ?thesis by simp
next
  case (Start y)
  then show ?thesis using slave_count_dict_set [of g "Some y" x] by simp
next
  case (Attach k y)
  have "slave_count (add_slave g k y) x \<le> slave_count g x + (if y = x then 1 else 0)"
  proof (cases "k \<in> set (map fst g)")
    case True
    then show ?thesis
      using slave_count_dict_append [of g k y x] by (simp add: add_slave_def)
  next
    case False
    then show ?thesis
      using slave_count_dict_append [of "dict_set g k []" k y x] slave_count_dict_set [of g k x]
      by (simp add: add_slave_def)
  qed
  with Attach show ?thesis by simp
qed

subsection \<open>Runs of actions\<close>

lemma run_distinct: "distinct (map fst g) \<Longrightarrow> distinct (map fst (foldl apply_action g as))"
  by (induction as arbitrary: g) (simp_all add: distinct_apply_action)

lemma run_slave_source:
  "map_of (foldl apply_action [] as) k = Some l \<Longrightarrow> x \<in> set l \<Longrightarrow> Attach k x \<in> set as"
proof (induction as arbitrary: l rule: rev_induct)
  case Nil
  then show ?case by simp
next
  case (snoc a as)
  let ?g = "foldl apply_action [] as"
  from snoc.prems(1) have m: "map_of (apply_action ?g a) k = Some l" by simp
  show ?case
  proof (cases a)
    case Skip
    with m snoc show ?thesis by simp
  next
    case (Start y)
    with m snoc show ?thesis
      by (cases "k = Some y") (auto simp: map_of_dict_set map_of_add_slave)
  next
    case (Attach k' y)
    show ?thesis
    proof (cases "k = k'")
      case False
      with m Attach snoc show ?thesis by (auto simp: map_of_dict_set map_of_add_slave)
    next
      case True
      with m Attach have l: "l = slaves_of ?g k @ [y]" by (simp add: map_of_dict_set map_of_add_slave)
      show ?thesis
      proof (cases "x = y")
        case True
        with Attach \<open>k = k'\<close> show ?thesis by simp
      next
        case False
        with l snoc.prems(2) have "x \<in> set (slaves_of ?g k)" by simp
        then obtain l' where "map_of ?g k = Some l'" "x \<in> set l'"
          by (cases "map_of ?g k") (auto simp: slaves_of_def)
        with snoc.IH show ?thesis by simp
      qed
    qed
  qed
qed

lemma run_key_source:
  "map_of (foldl apply_action [] as) k = Some l \<Longrightarrow>
   (\<exists>m. k = Some m \<and> Start m \<in> set as) \<or> l \<noteq> []"
proof (induction as arbitrary: l rule: rev_induct)
  case Nil
  then show ?case by simp
next
  case (snoc a as)
  let ?g = "foldl apply_action [] as"
  from snoc.prems(1) have m: "map_of (apply_action ?g a) k = Some l" by simp
  show ?case
  proof (cases a)
    case Skip
    with m snoc show ?thesis by simp
  next
    case (Start y)
    with m snoc show ?thesis
      by (cases "k = Some y") (auto simp: map_of_dict_set map_of_add_slave)
  next
    case (Attach k' y)
    with m snoc show ?thesis
      by (cases "k = k'") (auto simp: map_of_dict_set map_of_add_slave)
  qed
qed

lemma run_keys:
  "set (map fst (foldl apply_action g as)) =
     set (map fst g) \<union> {Some m | m. Start m \<in> set as} \<union> {k. \<exists>x. Attach k x \<in> set as}"
proof (induction as arbitrary: g)
  case Nil
  show ?case by simp
next
  case (Cons a as)
  show ?case
    unfolding foldl_Cons Cons.IH keys_apply_action
    by (cases a) auto
qed

lemma run_slave_count:
  "slave_count (foldl apply_action g as) x \<le>
     slave_count g x + length [a \<leftarrow> as. \<exists>k. a = Attach k x]"
proof (induction as arbitrary: g)
  case Nil
  show ?case by simp
next
  case (Cons a as)
  have "slave_count (foldl apply_action (apply_action g a) as) x \<le>
          slave_count (apply_action g a) x + length [a \<leftarrow> as. \<exists>k. a = Attach k x]"
    by (rule Cons.IH)
  also have "slave_count (apply_action g a) x \<le>
     slave_count g x + (case a of Attach k y \<Rightarrow> if y = x then 1 else 0 | _ \<Rightarrow> 0)"
    by (rule slave_count_apply_action)
  finally show ?case
    by (cases a) (auto split: if_splits)
qed

lemma slaves_of_dict_set:
  "slaves_of (dict_set g k' v) k = (if k = k' then v else slaves_of g k)"
  by (simp add: slaves_of_def map_of_dict_set)

lemma slaves_of_add_slave:
  "slaves_of (add_slave g m x) k = (if k = m then slaves_of g m @ [x] else slaves_of g k)"
  by (simp add: slaves_of_def map_of_add_slave)

lemma run_keeps_slave:
  "x \<in> set (slaves_of g k) \<Longrightarrow> \<forall>m. k = Some m \<longrightarrow> Start m \<notin> set post \<Longrightarrow>
   x \<in> set (slaves_of (foldl apply_action g post) k)"
proof (induction post arbitrary: g)
  case Nil
  then show ?case by simp
next
  case (Cons a post)
  have "x \<in> set (slaves_of (apply_action g a) k)"
    using Cons.prems by (cases a) (auto simp: slaves_of_dict_set slaves_of_add_slave)
  moreover have "\<forall>m. k = Some m \<longrightarrow> Start m \<notin> set post"
    using Cons.prems(2) by simp
  ultimately show ?case
    using Cons.IH by simp
qed

lemma run_presence:
  assumes "as = pre @ [Attach k x] @ post" and "\<forall>m. k = Some m \<longrightarrow> Start m \<notin> set post"
  shows "x \<in> set (slaves_of (foldl apply_action g as) k)"
proof -
  have "x \<in> set (slaves_of (apply_action (foldl apply_action g pre) (Attach k x)) k)"
    by (simp add: slaves_of_add_slave)
  then show ?thesis
    unfolding assms(1) using run_keeps_slave [OF _ assms(2)] by simp
qed

subsection \<open>The loops as runs of actions\<close>

lemma resolve_plotmaster_Some:
  "resolve_plotmaster h (Some r) \<noteq> Some None"
  by (simp add: resolve_plotmaster_def)

lemma data_step_action:
  "data_step sch h d (g, v) =
     map_option (\<lambda>a. (apply_action g a,
                       if volume sch \<and> voloverlay sch = False \<and> plot (plotinfo (h d))
                       then v @ [d] else v))
       (action h (Data d))"
proof (cases "plot (plotinfo (h d))")
  case False
  then show ?thesis by (simp add: data_step_def action_def)
next
  case True
  show ?thesis
  proof (cases "plotmaster (plotinfo (h d))")
    case None
    with True show ?thesis
      by (simp add: data_step_def action_def resolve_plotmaster_def)
  next
    case (Some r)
    with True show ?thesis
      by (cases "resolve_loop h r")
         (simp_all add: data_step_def action_def resolve_plotmaster_def)
  qed
qed

lemma obs_step_action: "obs_step h x g = map_option (apply_action g) (action h (Obs x))"
  by (cases "resolve_plotmaster h (py_or h (plotmaster (plotinfo (h x))) (Some (data (h x))))")
     (auto simp: obs_step_def action_def)

lemma ind_step_action: "ind_step h (Plottable i) g = map_option (apply_action g) (action h (Ind i))"
  by (cases "resolve_plotmaster h
               (if plotmaster (plotinfo (h i)) \<noteq> None then plotmaster (plotinfo (h i))
                else Some (data (h i)))")
     (auto simp: ind_step_def action_def)

lemma data_loop_run:
  "for_each (data_step sch h) ds (g, v) = Some (g', v') \<Longrightarrow>
   \<exists>as. map (action h) (map Data ds) = map Some as \<and> g' = foldl apply_action g as \<and>
        v' = v @ (if volume sch \<and> voloverlay sch = False
                  then filter (\<lambda>d. plot (plotinfo (h d))) ds else [])"
proof (induction ds arbitrary: g v)
  case Nil
  then show ?case by simp
next
  case (Cons d ds)
  from Cons.prems obtain a where a: "action h (Data d) = Some a"
    using data_step_action [of sch h d g v] by (cases "action h (Data d)") simp_all
  let ?v = "if volume sch \<and> voloverlay sch = False \<and> plot (plotinfo (h d)) then v @ [d] else v"
  from Cons.prems a have "for_each (data_step sch h) ds (apply_action g a, ?v) = Some (g', v')"
    using data_step_action [of sch h d g v] by simp
  from Cons.IH [OF this] obtain as where
    as: "map (action h) (map Data ds) = map Some as" "g' = foldl apply_action (apply_action g a) as"
      "v' = ?v @ (if volume sch \<and> voloverlay sch = False
                  then filter (\<lambda>d. plot (plotinfo (h d))) ds else [])"
    by blast
  have "map (action h) (map Data (d # ds)) = map Some (a # as)"
    using a as(1) by simp
  moreover have "g' = foldl apply_action g (a # as)" using as(2) by simp
  moreover have "v' = v @ (if volume sch \<and> voloverlay sch = False
                  then filter (\<lambda>d. plot (plotinfo (h d))) (d # ds) else [])"
    using as(3) by simp
  ultimately show ?case by blast
qed

lemma obs_loop_run:
  "for_each (obs_step h) obs g = Some g' \<Longrightarrow>
   \<exists>as. map (action h) (map Obs obs) = map Some as \<and> g' = foldl apply_action g as"
proof (induction obs arbitrary: g)
  case Nil
  then show ?case by simp
next
  case (Cons x obs)
  from Cons.prems obtain a where a: "action h (Obs x) = Some a"
    using obs_step_action [of h x g] by (cases "action h (Obs x)") simp_all
  from Cons.prems a have "for_each (obs_step h) obs (apply_action g a) = Some g'"
    using obs_step_action [of h x g] by simp
  from Cons.IH [OF this] obtain as where
    as: "map (action h) (map Obs obs) = map Some as" "g' = foldl apply_action (apply_action g a) as"
    by blast
  have "map (action h) (map Obs (x # obs)) = map Some (a # as)"
    using a as(1) by simp
  moreover have "g' = foldl apply_action g (a # as)" using as(2) by simp
  ultimately show ?case by blast
qed

lemma ind_loop_run:
  "for_each (ind_step h) inds g = Some g' \<Longrightarrow>
   \<exists>as. map (action h)
          (concat (map (\<lambda>e. case e of LineSingle \<Rightarrow> [] | Plottable i \<Rightarrow> [Ind i]) inds)) =
        map Some as \<and> g' = foldl apply_action g as"
proof (induction inds arbitrary: g)
  case Nil
  then show ?case by simp
next
  case (Cons e inds)
  show ?case
  proof (cases e)
    case LineSingle
    have "ind_step h LineSingle g = Some g" by (simp add: ind_step_def)
    with Cons.prems LineSingle have "for_each (ind_step h) inds g = Some g'"
      by simp
    from Cons.IH [OF this] LineSingle show ?thesis by simp
  next
    case (Plottable i)
    from Cons.prems Plottable obtain a where a: "action h (Ind i) = Some a"
      using ind_step_action [of h i g] by (cases "action h (Ind i)") simp_all
    from Cons.prems Plottable a have "for_each (ind_step h) inds (apply_action g a) = Some g'"
      using ind_step_action [of h i g] by simp
    from Cons.IH [OF this] obtain as where
      as: "map (action h)
          (concat (map (\<lambda>e. case e of LineSingle \<Rightarrow> [] | Plottable i \<Rightarrow> [Ind i]) inds)) =
        map Some as" "g' = foldl apply_action (apply_action g a) as"
      by blast
    have "map (action h)
          (concat (map (\<lambda>e. case e of LineSingle \<Rightarrow> [] | Plottable i \<Rightarrow> [Ind i]) (e # inds))) =
        map Some (a # as)"
      using a as(1) Plottable by simp
    moreover have "g' = foldl apply_action g (a # as)" using as(2) by simp
    ultimately show ?thesis by blast
  qed
qed

lemma build_graph_run:
  assumes "build_graph sch h ds inds obs = Some (g, vol)"
  shows "\<exists>as. map (action h) (entries ds inds obs) = map Some as \<and>
              g = foldl apply_action [] as \<and>
              vol = (if volume sch \<and> voloverlay sch = False
                     then filter (\<lambda>d. plot (plotinfo (h d))) ds else [])"
proof -
  from assms obtain g0 g1 where
    l1: "for_each (data_step sch h) ds ([], []) = Some (g0, vol)"
    and l2: "for_each (obs_step h) obs g0 = Some g1"
    and l3: "for_each (ind_step h) inds g1 = Some g"
    by (auto simp: build_graph_def split: option.splits)
  from data_loop_run [OF l1] obtain as0 where
    a0: "map (action h) (map Data ds) = map Some as0" "g0 = foldl apply_action [] as0"
      "vol = (if volume sch \<and> voloverlay sch = False
                     then filter (\<lambda>d. plot (plotinfo (h d))) ds else [])"
    by auto
  from obs_loop_run [OF l2] obtain as1 where
    a1: "map (action h) (map Obs obs) = map Some as1" "g1 = foldl apply_action g0 as1"
    by auto
  from ind_loop_run [OF l3] obtain as2 where
    a2: "map (action h)
          (concat (map (\<lambda>e. case e of LineSingle \<Rightarrow> [] | Plottable i \<Rightarrow> [Ind i]) inds)) =
        map Some as2" "g = foldl apply_action g1 as2"
    by auto
  have "map (action h) (entries ds inds obs) = map Some (as0 @ as1 @ as2)"
    using a0(1) a1(1) a2(1) by (simp add: entries_def)
  moreover have "g = foldl apply_action [] (as0 @ as1 @ as2)"
    using a0(2) a1(2) a2(2) by simp
  ultimately show ?thesis using a0(3) by blast
qed

subsection \<open>Actions and the flags they come from\<close>

lemma master_arg_Some:
  "\<not> own_group h e \<Longrightarrow> \<exists>r. master_arg h e = Some r"
  by (cases e) (auto simp: py_or_def split: option.splits)

lemma action_Start:
  "action h e = Some (Start m) \<longleftrightarrow> enabled h e \<and> own_group h e \<and> ref_of e = m"
  by (auto simp: action_def)

lemma action_Attach:
  "action h e = Some (Attach k x) \<longleftrightarrow>
     enabled h e \<and> \<not> own_group h e \<and> ref_of e = x \<and>
     resolve_plotmaster h (master_arg h e) = Some k"
  by (auto simp: action_def)

lemma action_Attach_Some:
  assumes "action h e = Some (Attach k x)"
  shows "\<exists>m. k = Some m"
proof -
  from assms have n: "\<not> own_group h e" and r: "resolve_plotmaster h (master_arg h e) = Some k"
    by (simp_all add: action_Attach)
  from master_arg_Some [OF n] obtain r' where "master_arg h e = Some r'" by blast
  with r show ?thesis
    by (cases k) (auto simp: resolve_plotmaster_def)
qed

lemma actions_set:
  "map (action h) es = map Some as \<Longrightarrow> a \<in> set as \<longleftrightarrow> (\<exists>e\<in>set es. action h e = Some a)"
proof -
  assume "map (action h) es = map Some as"
  then have "action h ` set es = Some ` set as"
    by (metis list.set_map)
  then show ?thesis by (auto simp: image_iff) (metis imageI image_iff option.inject)+
qed

lemma filter_le_one:
  "distinct (map f xs) \<Longrightarrow> length (filter (\<lambda>e. f e = x) xs) \<le> 1"
  by (induction xs) (auto simp: filter_empty_conv image_iff)

lemma filter_length_mono:
  "(\<And>e. e \<in> set xs \<Longrightarrow> P e \<Longrightarrow> Q e) \<Longrightarrow> length (filter P xs) \<le> length (filter Q xs)"
  by (induction xs) auto

lemma attach_once:
  assumes m: "map (action h) es = map Some as" and d: "distinct (map ref_of es)"
  shows "length [a \<leftarrow> as. \<exists>k. a = Attach k x] \<le> 1"
proof -
  have "length [a \<leftarrow> map Some as. \<exists>k. a = Some (Attach k x)] = length [a \<leftarrow> as. \<exists>k. a = Attach k x]"
    by (simp add: filter_map comp_def)
  moreover have "length [a \<leftarrow> map (action h) es. \<exists>k. a = Some (Attach k x)] =
                 length [e \<leftarrow> es. \<exists>k. action h e = Some (Attach k x)]"
    by (simp add: filter_map comp_def)
  moreover have "length [e \<leftarrow> es. \<exists>k. action h e = Some (Attach k x)] \<le>
                 length [e \<leftarrow> es. ref_of e = x]"
    by (rule filter_length_mono) (auto simp: action_Attach)
  moreover have "length [e \<leftarrow> es. ref_of e = x] \<le> 1"
    using d by (rule filter_le_one)
  ultimately show ?thesis using m by simp
qed

lemma same_entry:
  "distinct (map ref_of es) \<Longrightarrow> e \<in> set es \<Longrightarrow> e' \<in> set es \<Longrightarrow> ref_of e = ref_of e' \<Longrightarrow> e = e'"
  by (meson distinct_map inj_onD)

subsection \<open>Groups of a graph with distinct keys\<close>

lemma key_once:
  "distinct (map fst g) \<Longrightarrow> k \<in> set (map fst g) \<Longrightarrow> [fst kv. kv \<leftarrow> g, fst kv = k] = [k]"
proof (induction g)
  case Nil
  then show ?case by simp
next
  case (Cons kv g)
  show ?case
  proof (cases "fst kv = k")
    case True
    with Cons.prems(1) have "k \<notin> fst ` set g" by simp
    then have "\<forall>kv'\<in>set g. fst kv' \<noteq> k" by force
    then have "[fst kv. kv \<leftarrow> g, fst kv = k] = []"
      by (induction g) auto
    with True show ?thesis by simp
  next
    case False
    with Cons show ?thesis by auto
  qed
qed

lemma slave_lists_le_count:
  "length [kv \<leftarrow> g. x \<in> set (snd kv)] \<le> slave_count g x"
proof (induction g)
  case Nil
  show ?case by (simp add: slave_count_def)
next
  case (Cons kv g)
  have "x \<in> set (snd kv) \<Longrightarrow> 1 \<le> count_list (snd kv) x"
    using count_list_0_iff [of "snd kv" x] by (cases "count_list (snd kv) x") simp_all
  with Cons show ?case
    by (auto simp: slave_count_def)
qed

lemma count_le_slave_count:
  "kv \<in> set g \<Longrightarrow> count_list (snd kv) x \<le> slave_count g x"
  by (induction g) (auto simp: slave_count_def)

lemma groups_of_key_only:
  assumes "distinct (map fst g)" "Some x \<in> set (map fst g)" "\<forall>kv\<in>set g. x \<notin> set (snd kv)"
  shows "groups_of g x = [Some x]"
proof -
  have "[fst kv. kv \<leftarrow> g, fst kv = Some x \<or> x \<in> set (snd kv)] = [fst kv. kv \<leftarrow> g, fst kv = Some x]"
    using assms(3) by (induction g) auto
  then show ?thesis
    using key_once [OF assms(1,2)] by (simp add: groups_of_def)
qed

lemma groups_of_slave_only:
  assumes "Some x \<notin> set (map fst g)" "map_of g k = Some l" "x \<in> set l"
    and "length [kv \<leftarrow> g. x \<in> set (snd kv)] \<le> 1"
  shows "groups_of g x = [k]"
proof -
  have in_g: "(k, l) \<in> set g" using assms(2) by (rule map_of_SomeD)
  then have "(k, l) \<in> set [kv \<leftarrow> g. x \<in> set (snd kv)]" using assms(3) by simp
  moreover from this assms(4) have "length [kv \<leftarrow> g. x \<in> set (snd kv)] = 1"
    by (metis One_nat_def Suc_leI le_antisym length_pos_if_in_set)
  ultimately have f: "[kv \<leftarrow> g. x \<in> set (snd kv)] = [(k, l)]"
    by (cases "[kv \<leftarrow> g. x \<in> set (snd kv)]") auto
  have "[fst kv. kv \<leftarrow> g, fst kv = Some x \<or> x \<in> set (snd kv)] =
        map fst [kv \<leftarrow> g. x \<in> set (snd kv)]"
    using assms(1) by (induction g) auto
  with f show ?thesis by (simp add: groups_of_def)
qed

subsection \<open>The graph that is built\<close>

text \<open>What holds of the graph whenever the builder returns one.\<close>

lemma build_graph_result_groups:
  assumes bg: "build_graph sch h ds inds obs = Some (g, vol)"
    and dist: "distinct (map ref_of (entries ds inds obs))"
  shows
   "(\<forall>e\<in>set (entries ds inds obs). enabled h e \<and> own_group h e \<longrightarrow>
        groups_of g (ref_of e) = [Some (ref_of e)])
  \<and> (\<forall>x. length [kv \<leftarrow> g. x \<in> set (snd kv)] \<le> 1 \<and> (\<forall>kv\<in>set g. count_list (snd kv) x \<le> 1))
  \<and> (\<forall>kv\<in>set g. \<forall>x\<in>set (snd kv). \<exists>e\<in>set (entries ds inds obs).
        ref_of e = x \<and> enabled h e \<and> \<not> own_group h e \<and>
        resolve_plotmaster h (master_arg h e) = Some (fst kv))
  \<and> (\<forall>kv\<in>set g. \<exists>m. fst kv = Some m \<and>
        (snd kv = [] \<longrightarrow> (\<exists>e\<in>set (entries ds inds obs). ref_of e = m \<and> enabled h e \<and> own_group h e)))
  \<and> (\<forall>e\<in>set (entries ds inds obs). \<not> enabled h e \<longrightarrow>
        (\<forall>kv\<in>set g. ref_of e \<notin> set (snd kv)) \<and> (\<forall>l. (Some (ref_of e), l) \<in> set g \<longrightarrow> l \<noteq> []))
  \<and> (\<forall>pre e post m.
        entries ds inds obs = pre @ [e] @ post \<and> enabled h e \<and> \<not> own_group h e \<and>
        resolve_plotmaster h (master_arg h e) = Some (Some m) \<and>
        (\<forall>e'\<in>set post. \<not> (ref_of e' = m \<and> enabled h e' \<and> own_group h e')) \<longrightarrow>
          ref_of e \<in> set (slaves_of g (Some m)) \<and>
          (Some (ref_of e) \<notin> set (map fst g) \<longrightarrow> groups_of g (ref_of e) = [Some m]))"
proof -
  let ?es = "entries ds inds obs"
  from build_graph_run [OF bg] obtain as where
    acts: "map (action h) ?es = map Some as" and g: "g = foldl apply_action [] as"
    by blast
  have dk: "distinct (map fst g)"
    unfolding g by (rule run_distinct) simp
  have in_g: "(k, l) \<in> set g \<longleftrightarrow> map_of g k = Some l" for k l
    using dk by (simp add: map_of_eq_Some_iff)
  have slave: "\<exists>e\<in>set ?es. action h e = Some (Attach (fst kv) x)"
    if "kv \<in> set g" "x \<in> set (snd kv)" for kv x
  proof -
    from that(1) have "map_of g (fst kv) = Some (snd kv)" using in_g [of "fst kv" "snd kv"] by simp
    then have "Attach (fst kv) x \<in> set as"
      unfolding g using that(2) by (rule run_slave_source)
    then show ?thesis using actions_set [OF acts] by blast
  qed
  have cnt: "slave_count g x \<le> 1" for x
  proof -
    have "slave_count g x \<le> slave_count [] x + length [a \<leftarrow> as. \<exists>k. a = Attach k x]"
      unfolding g by (rule run_slave_count)
    also have "\<dots> \<le> 1" using attach_once [OF acts dist] by (simp add: slave_count_def)
    finally show ?thesis .
  qed
  have lists: "length [kv \<leftarrow> g. x \<in> set (snd kv)] \<le> 1" for x
    using slave_lists_le_count [of x g] cnt [of x] by simp
  have c1: "groups_of g (ref_of e) = [Some (ref_of e)]"
    if e: "e \<in> set ?es" "enabled h e" "own_group h e" for e
  proof -
    from e have st: "action h e = Some (Start (ref_of e))" by (simp add: action_Start)
    with e(1) have "Start (ref_of e) \<in> set as" using actions_set [OF acts] by blast
    then have key: "Some (ref_of e) \<in> set (map fst g)"
      unfolding g run_keys by simp
    have "ref_of e \<notin> set (snd kv)" if kv: "kv \<in> set g" for kv
    proof
      assume "ref_of e \<in> set (snd kv)"
      from slave [OF kv this] obtain e' where
        e': "e' \<in> set ?es" "action h e' = Some (Attach (fst kv) (ref_of e))" by blast
      then have "ref_of e' = ref_of e" by (simp add: action_Attach)
      with same_entry [OF dist e'(1) e(1)] have "e' = e" by simp
      with e'(2) st show False by simp
    qed
    then show ?thesis
      using groups_of_key_only [OF dk key] by blast
  qed
  have c2: "length [kv \<leftarrow> g. x \<in> set (snd kv)] \<le> 1 \<and> (\<forall>kv\<in>set g. count_list (snd kv) x \<le> 1)" for x
    using lists [of x] count_le_slave_count [of _ g x] cnt [of x] by (meson le_trans)
  have c3: "\<exists>e\<in>set ?es. ref_of e = x \<and> enabled h e \<and> \<not> own_group h e \<and>
        resolve_plotmaster h (master_arg h e) = Some (fst kv)"
    if "kv \<in> set g" "x \<in> set (snd kv)" for kv x
    using slave [OF that] by (auto simp: action_Attach)
  have c4: "\<exists>m. fst kv = Some m \<and>
        (snd kv = [] \<longrightarrow> (\<exists>e\<in>set ?es. ref_of e = m \<and> enabled h e \<and> own_group h e))"
    if kv: "kv \<in> set g" for kv
  proof -
    from kv have m: "map_of g (fst kv) = Some (snd kv)" using in_g [of "fst kv" "snd kv"] by simp
    from m have src: "(\<exists>m. fst kv = Some m \<and> Start m \<in> set as) \<or> snd kv \<noteq> []"
      unfolding g by (rule run_key_source)
    have "\<exists>m. fst kv = Some m"
    proof (cases "snd kv")
      case Nil
      with src show ?thesis by blast
    next
      case (Cons x xs)
      then have "x \<in> set (snd kv)" by simp
      from slave [OF kv this] action_Attach_Some show ?thesis by blast
    qed
    then obtain m where fm: "fst kv = Some m" by blast
    have "\<exists>e\<in>set ?es. ref_of e = m \<and> enabled h e \<and> own_group h e" if "snd kv = []"
    proof -
      from src that fm have "Start m \<in> set as" by simp
      then obtain e where "e \<in> set ?es" "action h e = Some (Start m)"
        using actions_set [OF acts] by blast
      then show ?thesis by (auto simp: action_Start)
    qed
    with fm show ?thesis by blast
  qed
  have c5: "(\<forall>kv\<in>set g. ref_of e \<notin> set (snd kv)) \<and> (\<forall>l. (Some (ref_of e), l) \<in> set g \<longrightarrow> l \<noteq> [])"
    if e: "e \<in> set ?es" "\<not> enabled h e" for e
  proof -
    have a: "ref_of e \<notin> set (snd kv)" if kv: "kv \<in> set g" for kv
    proof
      assume "ref_of e \<in> set (snd kv)"
      from c3 [OF kv this] obtain e' where
        e': "e' \<in> set ?es" "ref_of e' = ref_of e" "enabled h e'" by blast
      with same_entry [OF dist e'(1) e(1)] e(2) show False by simp
    qed
    have b: "l \<noteq> []" if l: "(Some (ref_of e), l) \<in> set g" for l
    proof
      assume "l = []"
      with c4 [OF l] obtain e' where
        e': "e' \<in> set ?es" "ref_of e' = ref_of e" "enabled h e'" by auto
      with same_entry [OF dist e'(1) e(1)] e(2) show False by simp
    qed
    from a b show ?thesis by blast
  qed
  have c6: "ref_of e \<in> set (slaves_of g (Some m)) \<and>
          (Some (ref_of e) \<notin> set (map fst g) \<longrightarrow> groups_of g (ref_of e) = [Some m])"
    if sp: "?es = pre @ [e] @ post" and e: "enabled h e" "\<not> own_group h e"
      "resolve_plotmaster h (master_arg h e) = Some (Some m)"
      and later: "\<forall>e'\<in>set post. \<not> (ref_of e' = m \<and> enabled h e' \<and> own_group h e')"
    for pre e post m
  proof -
    from e have ae: "action h e = Some (Attach (Some m) (ref_of e))" by (simp add: action_Attach)
    from acts sp obtain pre' a' post' where
      as: "as = pre' @ [a'] @ post'" and p: "map (action h) post = map Some post'"
      and a': "action h e = Some a'"
      by (auto simp: map_eq_append_conv append_eq_map_conv Cons_eq_map_conv)
    from a' ae have a'': "a' = Attach (Some m) (ref_of e)" by simp
    have "Start m \<notin> set post'"
    proof
      assume "Start m \<in> set post'"
      then obtain e' where "e' \<in> set post" "action h e' = Some (Start m)"
        using actions_set [OF p] by blast
      with later show False by (auto simp: action_Start)
    qed
    then have pres: "ref_of e \<in> set (slaves_of g (Some m))"
      unfolding g using run_presence [of as pre' "Some m" "ref_of e" post' "[]"] as a'' by simp
    then obtain l where l: "map_of g (Some m) = Some l" "ref_of e \<in> set l"
      by (cases "map_of g (Some m)") (auto simp: slaves_of_def)
    have "groups_of g (ref_of e) = [Some m]" if "Some (ref_of e) \<notin> set (map fst g)"
      using groups_of_slave_only [OF that l lists] .
    with pres show ?thesis by blast
  qed
  from c1 c2 c3 c4 c5 c6 show ?thesis by blast
qed

lemma build_graph_result_volume:
  assumes "build_graph sch h ds inds obs = Some (g, vol)"
  shows "vol = (if volume sch \<and> \<not> voloverlay sch then filter (\<lambda>d. plot (plotinfo (h d))) ds else [])
       \<and> (\<forall>d\<in>set vol. plotmaster (plotinfo (h d)) = None \<longrightarrow> Some d \<in> set (map fst g))"
proof -
  let ?es = "entries ds inds obs"
  from build_graph_run [OF assms] obtain as where
    acts: "map (action h) ?es = map Some as" and g: "g = foldl apply_action [] as"
    and v: "vol = (if volume sch \<and> voloverlay sch = False
                     then filter (\<lambda>d. plot (plotinfo (h d))) ds else [])"
    by blast
  have "Some d \<in> set (map fst g)" if d: "d \<in> set vol" "plotmaster (plotinfo (h d)) = None" for d
  proof -
    from d(1) v have "d \<in> set ds" "plot (plotinfo (h d))" by (auto split: if_splits)
    with d(2) have "Data d \<in> set ?es" "action h (Data d) = Some (Start d)"
      by (simp_all add: entries_def action_def)
    then have "Start d \<in> set as" using actions_set [OF acts] by blast
    then show ?thesis unfolding g run_keys by simp
  qed
  with v show ?thesis by simp
qed

text \<open>The builder returns when the resolver does, for every entry it is called on.\<close>

lemma data_loop_returns:
  "\<forall>d\<in>set ds. action h (Data d) \<noteq> None \<Longrightarrow> \<exists>gv'. for_each (data_step sch h) ds gv = Some gv'"
proof (induction ds arbitrary: gv)
  case Nil
  show ?case by simp
next
  case (Cons d ds)
  obtain g v where gv: "gv = (g, v)" by (cases gv)
  from Cons.prems obtain a where "action h (Data d) = Some a" by auto
  then obtain gv1 where "data_step sch h d gv = Some gv1"
    using data_step_action [of sch h d g v] gv by simp
  moreover from Cons.prems Cons.IH obtain gv' where "for_each (data_step sch h) ds gv1 = Some gv'"
    by fastforce
  ultimately show ?case by simp
qed

lemma obs_loop_returns:
  "\<forall>x\<in>set obs. action h (Obs x) \<noteq> None \<Longrightarrow> \<exists>g'. for_each (obs_step h) obs g = Some g'"
proof (induction obs arbitrary: g)
  case Nil
  show ?case by simp
next
  case (Cons x obs)
  from Cons.prems obtain a where "action h (Obs x) = Some a" by auto
  then obtain g1 where "obs_step h x g = Some g1"
    using obs_step_action [of h x g] by simp
  moreover from Cons.prems Cons.IH obtain g' where "for_each (obs_step h) obs g1 = Some g'"
    by fastforce
  ultimately show ?case by simp
qed

lemma ind_loop_returns:
  "\<forall>i. Plottable i \<in> set inds \<longrightarrow> action h (Ind i) \<noteq> None \<Longrightarrow>
   \<exists>g'. for_each (ind_step h) inds g = Some g'"
proof (induction inds arbitrary: g)
  case Nil
  show ?case by simp
next
  case (Cons e inds)
  have "\<exists>g1. ind_step h e g = Some g1"
  proof (cases e)
    case LineSingle
    then show ?thesis by (simp add: ind_step_def)
  next
    case (Plottable i)
    with Cons.prems obtain a where "action h (Ind i) = Some a" by auto
    with Plottable show ?thesis using ind_step_action [of h i g] by simp
  qed
  then obtain g1 where "ind_step h e g = Some g1" by blast
  moreover from Cons.prems Cons.IH obtain g' where "for_each (ind_step h) inds g1 = Some g'"
    by fastforce
  ultimately show ?case by simp
qed

lemma build_graph_returns:
  assumes "\<forall>e\<in>set (entries ds inds obs). enabled h e \<and> \<not> own_group h e \<longrightarrow>
             resolve_plotmaster h (master_arg h e) \<noteq> None"
  shows "\<exists>g vol. build_graph sch h ds inds obs = Some (g, vol)"
proof -
  have act: "action h e \<noteq> None" if "e \<in> set (entries ds inds obs)" for e
    using assms that by (auto simp: action_def)
  have "\<forall>d\<in>set ds. action h (Data d) \<noteq> None"
    using act by (simp add: entries_def)
  from data_loop_returns [OF this] obtain gv where
    l1: "for_each (data_step sch h) ds ([], []) = Some gv" by blast
  have "\<forall>x\<in>set obs. action h (Obs x) \<noteq> None"
    using act by (simp add: entries_def)
  from obs_loop_returns [OF this] obtain g1 where
    l2: "for_each (obs_step h) obs (fst gv) = Some g1" by blast
  have "\<forall>i. Plottable i \<in> set inds \<longrightarrow> action h (Ind i) \<noteq> None"
    using act by (force simp: entries_def)
  from ind_loop_returns [OF this] obtain g2 where
    l3: "for_each (ind_step h) inds g1 = Some g2" by blast
  from l1 l2 l3 show ?thesis by (simp add: build_graph_def)
qed

text \<open>
  Claim C1, as amended. Let the data feeds, observers and indicators handed to the graph
  builder be distinct objects, and let the resolver return for every entry that is attached
  to a master. Then the builder returns a graph, in which:
  \<^item> every entry that is plotted (the \<^verbatim>\<open>plot\<close> flag for a data feed; \<^verbatim>\<open>plot\<close> and not
    \<^verbatim>\<open>plotskip\<close> for an observer or indicator) and starts a group of its own (a data feed
    without plot master, a subplot) appears in exactly one group, as its master;
  \<^item> no plottable is in more than one slave list, nor twice in one;
  \<^item> every slave is a plotted entry that starts no group, listed under its resolved master;
  \<^item> every master is an object, and a master without slaves is a plotted entry with a
    group of its own;
  \<^item> an entry that is not plotted is in no slave list, and is a master only of a group that
    has slaves (the plotted entries whose plot master it is);
  \<^item> a plotted entry that starts no group is in the slave list of its resolved master,
    provided no later entry starts the group of that master afresh; it is then in exactly
    that one group unless it is itself the master of another one.
\<close>

theorem build_graph_groups:
  assumes dist: "distinct (map ref_of (entries ds inds obs))"
    and returns: "\<forall>e\<in>set (entries ds inds obs). enabled h e \<and> \<not> own_group h e \<longrightarrow>
                    resolve_plotmaster h (master_arg h e) \<noteq> None"
  shows "\<exists>g vol. build_graph sch h ds inds obs = Some (g, vol)
  \<and> (\<forall>e\<in>set (entries ds inds obs). enabled h e \<and> own_group h e \<longrightarrow>
        groups_of g (ref_of e) = [Some (ref_of e)])
  \<and> (\<forall>x. length [kv \<leftarrow> g. x \<in> set (snd kv)] \<le> 1 \<and> (\<forall>kv\<in>set g. count_list (snd kv) x \<le> 1))
  \<and> (\<forall>kv\<in>set g. \<forall>x\<in>set (snd kv). \<exists>e\<in>set (entries ds inds obs).
        ref_of e = x \<and> enabled h e \<and> \<not> own_group h e \<and>
        resolve_plotmaster h (master_arg h e) = Some (fst kv))
  \<and> (\<forall>kv\<in>set g. \<exists>m. fst kv = Some m \<and>
        (snd kv = [] \<longrightarrow> (\<exists>e\<in>set (entries ds inds obs). ref_of e = m \<and> enabled h e \<and> own_group h e)))
  \<and> (\<forall>e\<in>set (entries ds inds obs). \<not> enabled h e \<longrightarrow>
        (\<forall>kv\<in>set g. ref_of e \<notin> set (snd kv)) \<and> (\<forall>l. (Some (ref_of e), l) \<in> set g \<longrightarrow> l \<noteq> []))
  \<and> (\<forall>pre e post m.
        entries ds inds obs = pre @ [e] @ post \<and> enabled h e \<and> \<not> own_group h e \<and>
        resolve_plotmaster h (master_arg h e) = Some (Some m) \<and>
        (\<forall>e'\<in>set post. \<not> (ref_of e' = m \<and> enabled h e' \<and> own_group h e')) \<longrightarrow>
          ref_of e \<in> set (slaves_of g (Some m)) \<and>
          (Some (ref_of e) \<notin> set (map fst g) \<longrightarrow> groups_of g (ref_of e) = [Some m]))"
proof -
  from build_graph_returns [OF returns] obtain g vol where
    bg: "build_graph sch h ds inds obs = Some (g, vol)" by blast
  from bg build_graph_result_groups [OF bg dist] show ?thesis by blast
qed

text \<open>The builder on the example strategy.\<close>

lemma ex_entries:
  "entries [0, 1] [LineSingle, Plottable 2, Plottable 3] [4, 5] =
     [Data 0, Data 1, Obs 4, Obs 5, Ind 2, Ind 3]"
  by (simp add: entries_def)

lemma ex_build_graph:
  "build_graph ex_scheme ex_heap [0, 1] [LineSingle, Plottable 2, Plottable 3] [4, 5] =
     Some ([(Some 0, [1, 5, 3]), (Some 2, [])], [0, 1])"
  by (simp add: build_graph_eval ex_scheme_def)

text \<open>
  The statement of C1 on the example strategy: data feed 0 and indicator 2 are masters of
  their own groups, indicator 3 is a slave of data feed 0 only, and the skipped observer 4 is
  in no slave list.
\<close>

theorem build_graph_groups_witness:
  "\<exists>g vol. build_graph ex_scheme ex_heap [0, 1] [LineSingle, Plottable 2, Plottable 3] [4, 5] =
       Some (g, vol)
     \<and> groups_of g 0 = [Some 0] \<and> groups_of g 2 = [Some 2]
     \<and> 3 \<in> set (slaves_of g (Some 0)) \<and> groups_of g 3 = [Some 0]
     \<and> (\<forall>kv\<in>set g. 4 \<notin> set (snd kv))"
proof -
  let ?es = "entries [0, 1] [LineSingle, Plottable 2, Plottable 3] [4, 5]"
  have dist: "distinct (map ref_of ?es)"
    by (simp add: entries_def)
  have returns: "\<forall>e\<in>set ?es. enabled ex_heap e \<and> \<not> own_group ex_heap e \<longrightarrow>
                    resolve_plotmaster ex_heap (master_arg ex_heap e) \<noteq> None"
    by (simp add: entries_def py_or_def resolve_plotmaster_def resolve_loop_eval ex_heap_def
          new_obj_def)
  from build_graph_groups [OF dist returns, of ex_scheme] obtain g vol where
    bg: "build_graph ex_scheme ex_heap [0, 1] [LineSingle, Plottable 2, Plottable 3] [4, 5] =
       Some (g, vol)"
    and own: "\<forall>e\<in>set ?es. enabled ex_heap e \<and> own_group ex_heap e \<longrightarrow>
        groups_of g (ref_of e) = [Some (ref_of e)]"
    and off: "\<forall>e\<in>set ?es. \<not> enabled ex_heap e \<longrightarrow>
        (\<forall>kv\<in>set g. ref_of e \<notin> set (snd kv)) \<and> (\<forall>l. (Some (ref_of e), l) \<in> set g \<longrightarrow> l \<noteq> [])"
    and kept: "\<forall>pre e post m.
        ?es = pre @ [e] @ post \<and> enabled ex_heap e \<and> \<not> own_group ex_heap e \<and>
        resolve_plotmaster ex_heap (master_arg ex_heap e) = Some (Some m) \<and>
        (\<forall>e'\<in>set post. \<not> (ref_of e' = m \<and> enabled ex_heap e' \<and> own_group ex_heap e')) \<longrightarrow>
          ref_of e \<in> set (slaves_of g (Some m)) \<and>
          (Some (ref_of e) \<notin> set (map fst g) \<longrightarrow> groups_of g (ref_of e) = [Some m])"
    by blast
  have keys: "map fst g = [Some 0, Some 2]"
    using bg ex_build_graph by simp
  have d0: "Data 0 \<in> set ?es \<and> enabled ex_heap (Data 0) \<and> own_group ex_heap (Data 0)"
    by (simp add: entries_def ex_heap_def new_obj_def)
  have i2: "Ind 2 \<in> set ?es \<and> enabled ex_heap (Ind 2) \<and> own_group ex_heap (Ind 2)"
    by (simp add: entries_def ex_heap_def new_obj_def)
  have o4: "Obs 4 \<in> set ?es \<and> \<not> enabled ex_heap (Obs 4)"
    by (simp add: entries_def ex_heap_def new_obj_def)
  have i3: "?es = [Data 0, Data 1, Obs 4, Obs 5, Ind 2] @ [Ind 3] @ [] \<and>
            enabled ex_heap (Ind 3) \<and> \<not> own_group ex_heap (Ind 3) \<and>
            resolve_plotmaster ex_heap (master_arg ex_heap (Ind 3)) = Some (Some 0) \<and>
            (\<forall>e'\<in>set []. \<not> (ref_of e' = 0 \<and> enabled ex_heap e' \<and> own_group ex_heap e'))"
    by (simp add: entries_def resolve_plotmaster_def resolve_loop_eval ex_heap_def new_obj_def)
  from own d0 have g0: "groups_of g 0 = [Some 0]" by fastforce
  from own i2 have g2: "groups_of g 2 = [Some 2]" by fastforce
  from off o4 have g4: "\<forall>kv\<in>set g. 4 \<notin> set (snd kv)" by fastforce
  from kept i3 have "ref_of (Ind 3) \<in> set (slaves_of g (Some 0)) \<and>
          (Some (ref_of (Ind 3)) \<notin> set (map fst g) \<longrightarrow> groups_of g (ref_of (Ind 3)) = [Some 0])"
    by blast
  with keys have g3: "3 \<in> set (slaves_of g (Some 0))" "groups_of g 3 = [Some 0]"
    by simp_all
  from bg g0 g2 g3 g4 show ?thesis by blast
qed

text \<open>
  Against claim C1: with the data feeds handed over as 1, 0 the plotted data feed 1 (whose
  plot master is 0) ends in no group, since line 49 empties the group of 0 after 1 was
  appended to it; and a data feed 6 that is not plotted is the master of a group when the
  plotted data feed 1 names it as plot master.
\<close>

theorem build_graph_groups_counterexample:
  "build_graph ex_scheme ex_heap [1, 0] [] [] = Some ([(Some 0, [])], [1, 0])
   \<and> plot (plotinfo (ex_heap 1)) \<and> \<not> plotskip (plotinfo (ex_heap 1))
   \<and> groups_of [(Some 0, [])] 1 = []
   \<and> build_graph ex_scheme (ex_heap (1 := new_obj DataBase True False False (Some 6) 1)) [1] [] [] =
       Some ([(Some 6, [1])], [1])
   \<and> \<not> plot (plotinfo ((ex_heap (1 := new_obj DataBase True False False (Some 6) 1)) 6))
   \<and> groups_of [(Some 6, [1])] 6 = [Some 6]"
  by (simp add: build_graph_eval ex_scheme_def groups_of_def)

text \<open>
  Claim C2, as amended. When the resolver returns for every entry attached to a master, the
  builder returns the plot graph and the volume-panel list, and the list holds exactly the
  plotted data feeds, in the order given, when the scheme has \<^verbatim>\<open>volume\<close> set and
  \<^verbatim>\<open>voloverlay\<close> false, and nothing otherwise. The two outputs are not disjoint: every data
  feed of the list that has no plot master is also a master of the plot graph.
\<close>

theorem build_graph_volume_list:
  assumes "\<forall>e\<in>set (entries ds inds obs). enabled h e \<and> \<not> own_group h e \<longrightarrow>
             resolve_plotmaster h (master_arg h e) \<noteq> None"
  shows "\<exists>g vol. build_graph sch h ds inds obs = Some (g, vol)
       \<and> vol = (if volume sch \<and> \<not> voloverlay sch then filter (\<lambda>d. plot (plotinfo (h d))) ds else [])
       \<and> (\<forall>d\<in>set vol. plotmaster (plotinfo (h d)) = None \<longrightarrow> Some d \<in> set (map fst g))"
proof -
  from build_graph_returns [OF assms] obtain g vol where
    bg: "build_graph sch h ds inds obs = Some (g, vol)" by blast
  from bg build_graph_result_volume [OF bg] show ?thesis by blast
qed

text \<open>
  The statement of C2 on the example strategy with the unplotted data feed 6 added: the list
  is 0, 1, and 0 is a master of the graph as well.
\<close>

theorem build_graph_volume_list_witness:
  "\<exists>g. build_graph ex_scheme ex_heap [0, 1, 6] [LineSingle, Plottable 2, Plottable 3] [4, 5] =
       Some (g, [0, 1])
     \<and> Some 0 \<in> set (map fst g)"
proof -
  let ?es = "entries [0, 1, 6] [LineSingle, Plottable 2, Plottable 3] [4, 5]"
  have returns: "\<forall>e\<in>set ?es. enabled ex_heap e \<and> \<not> own_group ex_heap e \<longrightarrow>
                    resolve_plotmaster ex_heap (master_arg ex_heap e) \<noteq> None"
    by (simp add: entries_def py_or_def resolve_plotmaster_def resolve_loop_eval ex_heap_def
          new_obj_def)
  from build_graph_volume_list [OF returns, of ex_scheme] obtain g vol where
    bg: "build_graph ex_scheme ex_heap [0, 1, 6] [LineSingle, Plottable 2, Plottable 3] [4, 5] =
       Some (g, vol)"
    and v: "vol = (if volume ex_scheme \<and> \<not> voloverlay ex_scheme
                   then filter (\<lambda>d. plot (plotinfo (ex_heap d))) [0, 1, 6] else [])"
    and k: "\<forall>d\<in>set vol. plotmaster (plotinfo (ex_heap d)) = None \<longrightarrow> Some d \<in> set (map fst g)"
    by blast
  from v have vol: "vol = [0, 1]"
    by (simp add: ex_scheme_def ex_heap_def new_obj_def)
  have "plotmaster (plotinfo (ex_heap 0)) = None"
    by (simp add: ex_heap_def new_obj_def)
  with k vol have "Some 0 \<in> set (map fst g)" by simp
  with bg vol show ?thesis by blast
qed

text \<open>
  Against claim C2: for the single data feed 0, with separate volume display, 0 is in the
  volume-panel list and is a group of the plot graph.
\<close>

theorem build_graph_outputs_overlap_counterexample:
  "build_graph ex_scheme ex_heap [0] [] [] = Some ([(Some 0, [])], [0])
   \<and> 0 \<in> set [0 :: ref] \<and> groups_of [(Some 0, [])] 0 = [Some 0]"
  by (simp add: build_graph_eval ex_scheme_def groups_of_def)

section \<open>Properties of the render call\<close>

text \<open>The definitions to unfold when a call is evaluated on the example strategy.\<close>

lemmas plot_eval =
  bokeh_plot_def ex_strategy_def no_datas_def init_def Let_def get_start_end_def
  new_figure_def figure_plot_def apply_legend_def link_axis_def xaxis_visibility_def
  apply_hovertips_def ex_scheme_def build_graph_eval

lemma master_figures_raises:
  "master_figures h source start end' pos g = Inl e \<Longrightarrow> e = AttributeError"
  by (induction g arbitrary: pos) (auto simp: Let_def split: option.splits sum.splits)

text \<open>
  Claim C4, as amended. A call with \<^verbatim>\<open>numfigs\<close> greater than 1 raises the exception
  "numfigs must be 1" at once: whatever the other arguments and the strategy are, nothing
  else is evaluated and the object is left as it was. A call with \<^verbatim>\<open>numfigs\<close> at most 1 (1, 0
  or a negative number) never ends with that exception.
\<close>

theorem plot_numfigs_guard:
  "(numfigs > 1 \<longrightarrow>
      bokeh_plot date2num h self strategy figid numfigs iplot start end' use =
        Some (Raised (Exception ''numfigs must be 1''), self))
   \<and> (numfigs \<le> 1 \<longrightarrow>
        (\<forall>self'. bokeh_plot date2num h self strategy figid numfigs iplot start end' use \<noteq>
           Some (Raised (Exception ''numfigs must be 1''), self')))"
proof -
  have "e \<noteq> Exception ''numfigs must be 1''"
    if "numfigs \<le> 1"
      and "bokeh_plot date2num h self strategy figid numfigs iplot start end' use =
             Some (Raised e, self')" for e self'
    using that
    by (auto simp: bokeh_plot_def Let_def split: if_splits option.splits sum.splits
          dest!: master_figures_raises)
  then show ?thesis
    by (auto simp: bokeh_plot_def)
qed

text \<open>The statement of C4 at \<^verbatim>\<open>numfigs = 2\<close> and at \<^verbatim>\<open>numfigs = 1\<close>.\<close>

theorem plot_numfigs_guard_witness:
  "bokeh_plot (\<lambda>d::int. d) ex_heap (init ex_scheme) ex_strategy 0 2 True None None None =
     Some (Raised (Exception ''numfigs must be 1''), init ex_scheme)
   \<and> bokeh_plot (\<lambda>d::int. d) ex_heap (init ex_scheme) no_datas 0 1 True None None None \<noteq>
       Some (Raised (Exception ''numfigs must be 1''), init ex_scheme)"
  using plot_numfigs_guard [of 2 "\<lambda>d::int. d" ex_heap "init ex_scheme" ex_strategy 0 True None None None]
    plot_numfigs_guard [of 1 "\<lambda>d::int. d" ex_heap "init ex_scheme" no_datas 0 True None None None]
  by simp

text \<open>
  With \<^verbatim>\<open>numfigs = 0\<close>, which is different from 1, the call on the example strategy returns
  normally, against claim C4.
\<close>

theorem plot_numfigs_zero_counterexample:
  "map_option fst
     (bokeh_plot (\<lambda>d::int. d) ex_heap (init ex_scheme) ex_strategy 0 0 True None None None) =
   Some Returned"
  by (simp add: plot_eval)

text \<open>
  Claim C6 fails on the code. With the x-axis position "bottom", the call on the example
  strategy makes two panels and hides the tick labels of both, the last one included: the
  test \<^verbatim>\<open>i <= len(strat_figures)\<close> of line 178 holds for every index.
\<close>

theorem plot_xaxis_bottom_all_hidden:
  "xaxis_pos ex_scheme = ''bottom'' \<and>
   map_option (\<lambda>r. map xaxis_visible (figures (snd r)))
     (bokeh_plot (\<lambda>d::int. d) ex_heap (init ex_scheme) ex_strategy 0 1 True None None None) =
   Some [False, False]"
  by (simp add: plot_eval)

text \<open>Lines 177--178 hide the labels of every figure of the list.\<close>

lemma xaxis_visibility_hides_all: "map xaxis_visible (xaxis_visibility fs) = map (\<lambda>f. False) fs"
  by (simp add: list_eq_iff_nth_eq xaxis_visibility_def nth_enumerate_eq)

text \<open>
  Claim C7, as amended. A call that passes the two configuration checks (\<^verbatim>\<open>numfigs\<close> at most
  1, \<^verbatim>\<open>use\<close> unset) on a strategy with no data feeds, or with zero elapsed bars, returns
  without raising and leaves the object as it was: the figure list, the analyzer list, the
  shared time source and the graph attributes are unchanged.
\<close>

theorem plot_nothing_to_render:
  "numfigs \<le> 1 \<Longrightarrow> use = None \<Longrightarrow> datas strategy = [] \<or> len strategy = 0 \<Longrightarrow>
   bokeh_plot date2num h self strategy figid numfigs iplot start end' use = Some (Returned, self)"
  by (auto simp: bokeh_plot_def)

text \<open>
  The statement of C7 on the strategy without data feeds and on the example strategy with
  zero bars.
\<close>

theorem plot_nothing_to_render_witness:
  "bokeh_plot (\<lambda>d::int. d) ex_heap (init ex_scheme) no_datas 0 1 True None None None =
     Some (Returned, init ex_scheme)
   \<and> bokeh_plot (\<lambda>d::int. d) ex_heap (init ex_scheme) (ex_strategy\<lparr>len := 0\<rparr>) 0 1 True None None None =
     Some (Returned, init ex_scheme)"
  by (rule conjI; rule plot_nothing_to_render; simp add: no_datas_def)

text \<open>
  On a strategy with no data feeds a call with \<^verbatim>\<open>numfigs = 2\<close> raises: without the
  configuration checks passed, the call of claim C7 is not a silent no-op.
\<close>

theorem plot_no_datas_raises_counterexample:
  "datas no_datas = [] \<and>
   bokeh_plot (\<lambda>d::int. d) ex_heap (init ex_scheme) no_datas 0 2 True None None None =
     Some (Raised (Exception ''numfigs must be 1''), init ex_scheme)"
  by (simp add: bokeh_plot_def no_datas_def)

text \<open>Every figure a call makes is bound to the time source of the object.\<close>

lemma fig_cds_figure_plot: "fig_cds (figure_plot bf x m) = fig_cds bf"
  by (simp add: figure_plot_def)

lemma fig_cds_foldl_plot: "fig_cds (foldl (\<lambda>f s. figure_plot f s m) bf ss) = fig_cds bf"
  by (induction ss arbitrary: bf) (simp_all add: fig_cds_figure_plot)

lemma master_figures_cds:
  "master_figures h source start end' pos g = Inr fs \<Longrightarrow> f \<in> set fs \<Longrightarrow> fig_cds f = source"
proof (induction g arbitrary: pos fs)
  case Nil
  then show ?case by simp
next
  case (Cons kv g)
  obtain master slaves where kv: "kv = (master, slaves)" by (cases kv)
  from Cons.prems(1) obtain m fs' where m: "master = Some m"
    and rest: "master_figures h source start end' (pos + 1) g = Inr fs'"
    and fs: "fs = foldl (\<lambda>f s. figure_plot f s (Some m))
                   (figure_plot (new_figure source start end' (Some (kind (h m)))
                      (plotabove (plotinfo (h m))) pos) m None) slaves # fs'"
    unfolding kv by (auto simp: Let_def split: option.splits sum.splits)
  from Cons.prems(2) fs consider
    "f = foldl (\<lambda>f s. figure_plot f s (Some m))
                   (figure_plot (new_figure source start end' (Some (kind (h m)))
                      (plotabove (plotinfo (h m))) pos) m None) slaves" | "f \<in> set fs'"
    by auto
  then show ?case
  proof cases
    case 1
    then show ?thesis
      by (simp add: fig_cds_foldl_plot fig_cds_figure_plot new_figure_def)
  next
    case 2
    with Cons.IH rest show ?thesis by blast
  qed
qed

lemma fig_cds_apply_legend: "map fig_cds (map (apply_legend sch) fs) = map fig_cds fs"
  by (simp add: apply_legend_def)

lemma fig_cds_link_axis: "map fig_cds (link_axis fs) = map fig_cds fs"
  by (cases fs) (simp_all add: link_axis_def)

lemma fig_cds_xaxis_visibility: "map fig_cds (xaxis_visibility fs) = map fig_cds fs"
  by (simp add: list_eq_iff_nth_eq xaxis_visibility_def nth_enumerate_eq)

lemma fig_cds_apply_hovertips: "map fig_cds (apply_hovertips fs) = map fig_cds fs"
  by (simp add: apply_hovertips_def)

lemmas fig_cds_decorate =
  fig_cds_apply_legend fig_cds_link_axis fig_cds_xaxis_visibility fig_cds_apply_hovertips

text \<open>What one call does to the figure list and to the shared time source.\<close>

lemma plot_call_effect:
  assumes "bokeh_plot date2num h self strategy figid numfigs iplot start end' use = Some (out, self')"
  shows "(\<exists>new. figures self' = figures self @ new \<and>
            (\<forall>f\<in>set new. fig_cds f = cds self' \<and> cds self' \<noteq> None))
         \<and> (\<forall>c. cds self = Some c \<longrightarrow> cds self' = Some c)
         \<and> (cds self = None \<longrightarrow> cds self' =
              (if numfigs > 1 \<or> use \<noteq> None \<or> datas strategy = [] \<or> len strategy = 0 then None
               else Some (ColumnDataSource (hd (datas strategy)) start end')))"
proof (cases "numfigs > 1 \<or> use \<noteq> None \<or> datas strategy = [] \<or> len strategy = 0")
  case True
  with assms have "self' = self"
    by (auto simp: bokeh_plot_def split: if_splits)
  with True show ?thesis by auto
next
  case False
  define self2 where "self2 = (if cds self = None
       then self\<lparr>analyzers := analyzers self @ [strategy_analyzers strategy],
                 cds := Some (ColumnDataSource (hd (datas strategy)) start end')\<rparr>
       else self\<lparr>analyzers := analyzers self @ [strategy_analyzers strategy]\<rparr>)"
  have c2: "cds self2 = (if cds self = None
              then Some (ColumnDataSource (hd (datas strategy)) start end') else cds self)"
    and f2: "figures self2 = figures self" and p2: "p_scheme self2 = p_scheme self"
    by (simp_all add: self2_def)
  from assms False obtain gv where
    gv: "build_graph (p_scheme self2) h (datas strategy) (getindicators strategy)
           (getobservers strategy) = Some gv"
    by (auto simp: bokeh_plot_def Let_def self2_def split: if_splits option.splits)
  define self3 where "self3 = self2\<lparr>data_graph := Some (fst gv), volume_graphs := Some (snd gv)\<rparr>"
  define se where "se = get_start_end date2num (datetime_plot strategy) start end'"
  have c3: "cds self3 = cds self2" and f3: "figures self3 = figures self"
    by (simp_all add: self3_def f2)
  have cnn: "cds self3 \<noteq> None" using c3 c2 by auto
  show ?thesis
  proof (cases "master_figures h (cds self3) (fst se) (snd se) (length (figures self3)) (fst gv)")
    case (Inl e)
    have "self' = self3"
      using assms False gv Inl
      by (simp add: bokeh_plot_def Let_def self2_def self3_def se_def split: if_splits)
    then show ?thesis using False c3 c2 f3 by auto
  next
    case (Inr fs)
    define new where "new = apply_hovertips
              (if xaxis_pos (p_scheme self3) = ''bottom''
               then xaxis_visibility (link_axis (map (apply_legend (p_scheme self3)) fs))
               else link_axis (map (apply_legend (p_scheme self3)) fs))"
    have s': "self' = self3\<lparr>figures := figures self3 @ new\<rparr>"
      using assms False gv Inr
      by (simp add: bokeh_plot_def Let_def self2_def self3_def se_def new_def split: if_splits)
    have "map fig_cds new = map fig_cds fs"
      unfolding new_def
      by (simp only: fig_cds_decorate if_distrib [of "map fig_cds"] if_cancel)
    moreover have "\<forall>f\<in>set fs. fig_cds f = cds self3"
      using master_figures_cds [OF Inr] by blast
    ultimately have "\<forall>c\<in>set (map fig_cds new). c = cds self3" by simp
    then have "\<forall>f\<in>set new. fig_cds f = cds self3" by simp
    with s' cnn f3 c3 c2 False show ?thesis by auto
  qed
qed

lemma session_effect:
  "session date2num h calls self = Some self' \<Longrightarrow>
   (\<exists>new. figures self' = figures self @ new \<and>
      (\<forall>f\<in>set new. fig_cds f = cds self' \<and> cds self' \<noteq> None))
   \<and> (\<forall>c. cds self = Some c \<longrightarrow> cds self' = Some c)"
proof (induction calls arbitrary: self)
  case Nil
  then show ?case by (simp add: session_def)
next
  case (Cons c calls)
  from Cons.prems obtain self1 where
    one: "plot_call date2num h c self = Some self1"
    and more: "session date2num h calls self1 = Some self'"
    by (auto simp: session_def split: option.splits)
  from one obtain out where
    "bokeh_plot date2num h self (arg_strategy c) (arg_figid c) (arg_numfigs c) (arg_iplot c)
       (arg_start c) (arg_end c) (arg_use c) = Some (out, self1)"
    by (auto simp: plot_call_def)
  from plot_call_effect [OF this] obtain new1 where
    n1: "figures self1 = figures self @ new1"
      "\<forall>f\<in>set new1. fig_cds f = cds self1 \<and> cds self1 \<noteq> None"
    and k1: "\<forall>c. cds self = Some c \<longrightarrow> cds self1 = Some c"
    by blast
  from Cons.IH [OF more] obtain new2 where
    n2: "figures self' = figures self1 @ new2"
      "\<forall>f\<in>set new2. fig_cds f = cds self' \<and> cds self' \<noteq> None"
    and k2: "\<forall>c. cds self1 = Some c \<longrightarrow> cds self' = Some c"
    by blast
  have "figures self' = figures self @ (new1 @ new2)" using n1 n2 by simp
  moreover have "\<forall>f\<in>set (new1 @ new2). fig_cds f = cds self' \<and> cds self' \<noteq> None"
    using n1(2) n2(2) k2 by auto
  moreover have "\<forall>c. cds self = Some c \<longrightarrow> cds self' = Some c"
    using k1 k2 by blast
  ultimately show ?case by blast
qed

text \<open>
  A call returns when the resolver does for every entry of the graph builder: the masters
  of the graph are objects, so line 150 finds the \<^verbatim>\<open>plotinfo\<close> it reads.
\<close>

lemma build_graph_keys:
  assumes "build_graph sch h ds inds obs = Some (g, vol)"
  shows "\<forall>kv\<in>set g. fst kv \<noteq> None"
proof
  fix kv assume kv: "kv \<in> set g"
  from build_graph_run [OF assms] obtain as where
    acts: "map (action h) (entries ds inds obs) = map Some as"
    and g: "g = foldl apply_action [] as"
    by blast
  from kv have "fst kv \<in> set (map fst g)" by simp
  then consider m where "fst kv = Some m" | x where "Attach (fst kv) x \<in> set as"
    unfolding g run_keys by auto
  then show "fst kv \<noteq> None"
  proof cases
    case 1
    then show ?thesis by simp
  next
    case 2
    then obtain e where "action h e = Some (Attach (fst kv) x)"
      using actions_set [OF acts] by blast
    from action_Attach_Some [OF this] show ?thesis by auto
  qed
qed

lemma master_figures_returns:
  "\<forall>kv\<in>set g. fst kv \<noteq> None \<Longrightarrow>
   \<exists>fs. master_figures h source start end' pos g = Inr fs \<and> length fs = length g"
proof (induction g arbitrary: pos)
  case Nil
  show ?case by simp
next
  case (Cons kv g)
  obtain master slaves where kv: "kv = (master, slaves)" by (cases kv)
  from Cons.prems kv obtain m where m: "master = Some m" by auto
  from Cons.prems have "\<forall>kv\<in>set g. fst kv \<noteq> None" by simp
  from Cons.IH [OF this, of "pos + 1"] obtain fs where
    "master_figures h source start end' (pos + 1) g = Inr fs" "length fs = length g"
    by blast
  then show ?case
    by (simp add: kv m Let_def)
qed

lemma bokeh_plot_returns:
  assumes "\<forall>e\<in>set (entries (datas strategy) (getindicators strategy) (getobservers strategy)).
             enabled h e \<and> \<not> own_group h e \<longrightarrow> resolve_plotmaster h (master_arg h e) \<noteq> None"
  shows "\<exists>out self'. bokeh_plot date2num h self strategy figid numfigs iplot start end' use =
           Some (out, self') \<and> (numfigs \<le> 1 \<and> use = None \<longrightarrow> out = Returned)"
proof (cases "numfigs > 1 \<or> use \<noteq> None \<or> datas strategy = [] \<or> len strategy = 0")
  case True
  then show ?thesis by (auto simp: bokeh_plot_def)
next
  case False
  define self2 where "self2 = (if cds self = None
       then self\<lparr>analyzers := analyzers self @ [strategy_analyzers strategy],
                 cds := Some (ColumnDataSource (hd (datas strategy)) start end')\<rparr>
       else self\<lparr>analyzers := analyzers self @ [strategy_analyzers strategy]\<rparr>)"
  from build_graph_returns [OF assms, of "p_scheme self2"] obtain g vol where
    bg: "build_graph (p_scheme self2) h (datas strategy) (getindicators strategy)
           (getobservers strategy) = Some (g, vol)"
    by blast
  define self3 where "self3 = self2\<lparr>data_graph := Some g, volume_graphs := Some vol\<rparr>"
  define se where "se = get_start_end date2num (datetime_plot strategy) start end'"
  from master_figures_returns [OF build_graph_keys [OF bg]] obtain fs where
    mf: "master_figures h (cds self3) (fst se) (snd se) (length (figures self3)) g = Inr fs"
    by blast
  define fs4 where "fs4 = apply_hovertips
     (if xaxis_pos (p_scheme self3) = ''bottom''
      then xaxis_visibility (link_axis (map (apply_legend (p_scheme self3)) fs))
      else link_axis (map (apply_legend (p_scheme self3)) fs))"
  have "bokeh_plot date2num h self strategy figid numfigs iplot start end' use =
          Some (Returned, self3\<lparr>figures := figures self3 @ fs4\<rparr>)"
    using False bg mf
    by (simp add: bokeh_plot_def Let_def self2_def self3_def se_def fs4_def split: if_splits)
  then show ?thesis by blast
qed

lemma session_returns:
  assumes "\<forall>c\<in>set calls.
             \<forall>e\<in>set (entries (datas (arg_strategy c)) (getindicators (arg_strategy c))
                       (getobservers (arg_strategy c))).
               enabled h e \<and> \<not> own_group h e \<longrightarrow> resolve_plotmaster h (master_arg h e) \<noteq> None"
  shows "\<exists>self'. session date2num h calls self = Some self'"
  using assms
proof (induction calls arbitrary: self)
  case Nil
  show ?case by (simp add: session_def)
next
  case (Cons c calls)
  from Cons.prems have
    "\<forall>e\<in>set (entries (datas (arg_strategy c)) (getindicators (arg_strategy c))
                       (getobservers (arg_strategy c))).
               enabled h e \<and> \<not> own_group h e \<longrightarrow> resolve_plotmaster h (master_arg h e) \<noteq> None"
    by simp
  from bokeh_plot_returns [OF this, of date2num self "arg_figid c" "arg_numfigs c" "arg_iplot c"
      "arg_start c" "arg_end c" "arg_use c"]
  obtain out self1 where
    "bokeh_plot date2num h self (arg_strategy c) (arg_figid c) (arg_numfigs c) (arg_iplot c)
       (arg_start c) (arg_end c) (arg_use c) = Some (out, self1)"
    by blast
  then have one: "plot_call date2num h c self = Some self1"
    by (simp add: plot_call_def)
  have "\<forall>c\<in>set calls.
             \<forall>e\<in>set (entries (datas (arg_strategy c)) (getindicators (arg_strategy c))
                       (getobservers (arg_strategy c))).
               enabled h e \<and> \<not> own_group h e \<longrightarrow> resolve_plotmaster h (master_arg h e) \<noteq> None"
    using Cons.prems by simp
  from Cons.IH [OF this, of self1] obtain self' where
    "session date2num h calls self1 = Some self'"
    by blast
  with one show ?case by (simp add: session_def)
qed

text \<open>
  Claim C9. A \<^verbatim>\<open>plot\<close> call that ends, returning or raising, leaves the figure list as it was
  with the new figures appended, each bound to the shared time source of the object. A time
  source that is there before the call is there, unchanged, after it. When there is none, the
  call constructs it exactly if it gets to the graph building (it passes the configuration
  checks, and the strategy has data feeds and bars), from the first data feed. So over a
  session of calls the time source is constructed at most once, by the first call that gets
  that far, and every figure of the session is bound to it. A session ends whenever the
  resolver returns for the entries of its strategies.
\<close>

theorem plot_shared_time_source:
  "(bokeh_plot date2num h self strategy figid numfigs iplot start end' use = Some (out, self') \<longrightarrow>
      (\<exists>new. figures self' = figures self @ new \<and>
         (\<forall>f\<in>set new. fig_cds f = cds self' \<and> cds self' \<noteq> None))
      \<and> (\<forall>c. cds self = Some c \<longrightarrow> cds self' = Some c)
      \<and> (cds self = None \<longrightarrow> cds self' =
           (if numfigs > 1 \<or> use \<noteq> None \<or> datas strategy = [] \<or> len strategy = 0 then None
            else Some (ColumnDataSource (hd (datas strategy)) start end'))))
   \<and> (session date2num h calls self = Some self'' \<longrightarrow>
        (\<exists>new. figures self'' = figures self @ new \<and>
           (\<forall>f\<in>set new. fig_cds f = cds self'' \<and> cds self'' \<noteq> None))
        \<and> (\<forall>c. cds self = Some c \<longrightarrow> cds self'' = Some c))
   \<and> ((\<forall>c\<in>set calls.
          \<forall>e\<in>set (entries (datas (arg_strategy c)) (getindicators (arg_strategy c))
                    (getobservers (arg_strategy c))).
            enabled h e \<and> \<not> own_group h e \<longrightarrow> resolve_plotmaster h (master_arg h e) \<noteq> None) \<longrightarrow>
        (\<exists>s. session date2num h calls self = Some s))"
  using plot_call_effect [of date2num h self strategy figid numfigs iplot start end' use out self']
    session_effect [of date2num h calls self self'']
    session_returns [of calls h date2num self]
  by blast

text \<open>
  The statement of C9 on two calls in a row: the second one, with another \<^verbatim>\<open>start\<close>, keeps
  the time source of the first and appends its two figures.
\<close>

theorem plot_shared_time_source_witness:
  "\<exists>s1 s2. session (\<lambda>d. d) ex_heap [ex_call None] (init ex_scheme) = Some s1
     \<and> cds s1 = Some (ColumnDataSource 0 None None)
     \<and> session (\<lambda>d. d) ex_heap [ex_call (Some (Index 1))] s1 = Some s2
     \<and> cds s2 = Some (ColumnDataSource 0 None None)
     \<and> length (figures s1) = 2 \<and> length (figures s2) = 4
     \<and> take 2 (figures s2) = figures s1"
proof -
  have "\<exists>s1 s2. session (\<lambda>d. d) ex_heap [ex_call None] (init ex_scheme) = Some s1
     \<and> cds s1 = Some (ColumnDataSource 0 None None)
     \<and> session (\<lambda>d. d) ex_heap [ex_call (Some (Index 1))] s1 = Some s2
     \<and> length (figures s1) = 2 \<and> length (figures s2) = 4"
    by (simp add: session_def plot_call_def ex_call_def plot_eval)
  then obtain s1 s2 where
    r1: "session (\<lambda>d. d) ex_heap [ex_call None] (init ex_scheme) = Some s1"
    and c1: "cds s1 = Some (ColumnDataSource 0 None None)"
    and r2: "session (\<lambda>d. d) ex_heap [ex_call (Some (Index 1))] s1 = Some s2"
    and l: "length (figures s1) = 2" "length (figures s2) = 4"
    by blast
  from plot_shared_time_source [where date2num = "\<lambda>d. d" and h = ex_heap
      and calls = "[ex_call (Some (Index 1))]" and self = s1 and self'' = s2,
      THEN conjunct2, THEN conjunct1] r2
  obtain new where n: "figures s2 = figures s1 @ new"
    and k: "\<forall>c. cds s1 = Some c \<longrightarrow> cds s2 = Some c"
    by blast
  from k c1 have c2: "cds s2 = Some (ColumnDataSource 0 None None)" by blast
  from n l have "take 2 (figures s2) = figures s1" by simp
  with r1 c1 r2 c2 l show ?thesis by blast
qed

section \<open>Properties of the analyzer tab\<close>

lemma get_column_row_count_append:
  "get_column_row_count (xs @ ys) = get_column_row_count xs + get_column_row_count ys"
  by (simp add: get_column_row_count_def)

lemma fill_columns_snoc: "fill_columns (pre @ [b]) = place_block (fill_columns pre) b"
  by (simp add: fill_columns_def)

lemma place_block_greedy:
  "place_block cc b =
     (if get_column_row_count (fst cc) \<le> get_column_row_count (snd cc)
      then (fst cc @ [fst b] @ snd b, snd cc)
      else (fst cc, snd cc @ [fst b] @ snd b))"
  by (simp add: place_block_def col_idx_def Let_def)

lemma fill_columns_4_2_3:
  assumes "block_height b1 = 4" "block_height b2 = 2" "block_height b3 = 3"
  shows "fill_columns [b1, b2, b3] =
           ([fst b1] @ snd b1, [fst b2] @ snd b2 @ [fst b3] @ snd b3)"
proof -
  have h0: "get_column_row_count [] = 0"
    by (simp add: get_column_row_count_def)
  have s1: "place_block ([], []) b1 = ([fst b1] @ snd b1, [])"
    by (simp add: place_block_greedy)
  have s2: "place_block ([fst b1] @ snd b1, []) b2 = ([fst b1] @ snd b1, [fst b2] @ snd b2)"
    using assms(1) by (simp add: place_block_greedy block_height_def h0)
  have s3: "place_block ([fst b1] @ snd b1, [fst b2] @ snd b2) b3 =
              ([fst b1] @ snd b1, [fst b2] @ snd b2 @ [fst b3] @ snd b3)"
    using assms(1,2) by (simp add: place_block_greedy block_height_def)
  show ?thesis
    unfolding fill_columns_def using s1 s2 s3 by simp
qed

lemma col_idx_cases: "col_idx cc = 0 \<or> col_idx cc = 1"
  by (simp add: col_idx_def Let_def)

lemma snd_place_block:
  "snd (place_block cc b) = (if col_idx cc = 0 then snd cc else snd cc @ [fst b] @ snd b)"
  by (simp add: place_block_def)

lemma snd_foldl_place_block:
  "snd (foldl place_block cc bs) =
     snd cc @ concat [[fst b] @ snd b. (b, i) \<leftarrow> zip bs (col_trace cc bs), i = 1]"
proof (induction bs arbitrary: cc)
  case Nil
  show ?case by simp
next
  case (Cons b bs)
  show ?case
    using col_idx_cases [of cc] by (auto simp: Cons.IH snd_place_block)
qed

lemma snd_foldl_place_block_empty:
  "snd (foldl place_block cc bs) = [] \<longleftrightarrow> snd cc = [] \<and> 1 \<notin> set (col_trace cc bs)"
proof (induction bs arbitrary: cc)
  case Nil
  show ?case by simp
next
  case (Cons b bs)
  show ?case
    using col_idx_cases [of cc] by (auto simp: Cons.IH snd_place_block)
qed

text \<open>
  Claim C5, as amended. Each block goes, whole, into the column whose cumulative height is
  smaller when the block is placed, the left one on a tie: the columns after one more block
  \<open>b\<close> are the columns before it with the header and elements of \<open>b\<close> appended to the
  left column if its height is at most that of the right column, and to the right column
  otherwise. For three blocks of heights 4, 2 and 3, in that order, the left column holds the
  first block (height 4) and the right column holds the second and the third (height 5).
\<close>

theorem analyzer_tab_greedy_balance:
  "fill_columns (pre @ [b]) =
     (if get_column_row_count (fst (fill_columns pre)) \<le> get_column_row_count (snd (fill_columns pre))
      then (fst (fill_columns pre) @ [fst b] @ snd b, snd (fill_columns pre))
      else (fst (fill_columns pre), snd (fill_columns pre) @ [fst b] @ snd b))
   \<and> (block_height b1 = 4 \<and> block_height b2 = 2 \<and> block_height b3 = 3 \<longrightarrow>
        fill_columns [b1, b2, b3] = ([fst b1] @ snd b1, [fst b2] @ snd b2 @ [fst b3] @ snd b3)
        \<and> get_column_row_count (fst (fill_columns [b1, b2, b3])) = 4
        \<and> get_column_row_count (snd (fill_columns [b1, b2, b3])) = 5)"
proof -
  have greedy: "fill_columns (pre @ [b]) =
     (if get_column_row_count (fst (fill_columns pre)) \<le> get_column_row_count (snd (fill_columns pre))
      then (fst (fill_columns pre) @ [fst b] @ snd b, snd (fill_columns pre))
      else (fst (fill_columns pre), snd (fill_columns pre) @ [fst b] @ snd b))"
    by (simp only: fill_columns_snoc place_block_greedy)
  have example: "fill_columns [b1, b2, b3] = ([fst b1] @ snd b1, [fst b2] @ snd b2 @ [fst b3] @ snd b3)
        \<and> get_column_row_count (fst (fill_columns [b1, b2, b3])) = 4
        \<and> get_column_row_count (snd (fill_columns [b1, b2, b3])) = 5"
    if h: "block_height b1 = 4" "block_height b2 = 2" "block_height b3 = 3"
  proof -
    have e: "fill_columns [b1, b2, b3] = ([fst b1] @ snd b1, [fst b2] @ snd b2 @ [fst b3] @ snd b3)"
      using h by (rule fill_columns_4_2_3)
    have "get_column_row_count ([fst b2] @ snd b2 @ [fst b3] @ snd b3) = 5"
      using h(2,3) get_column_row_count_append [of "[fst b2] @ snd b2" "[fst b3] @ snd b3"]
      by (simp add: block_height_def)
    then show ?thesis using e h(1) by (simp add: block_height_def)
  qed
  show ?thesis using greedy example by blast
qed

text \<open>
  The statement of C5 at three analyzers, in two collections, whose tables have the heights
  4, 2 and 3 under a header without height.
\<close>

theorem analyzer_tab_greedy_balance_witness:
  "get_analyzer_tab (\<lambda>n. (\<lparr>height = None\<rparr>, [\<lparr>height = Some n\<rparr>]))
     [[(''a'', 4), (''b'', 2)], [(''c'', 3)]] =
   Some (Panel (Row [Column [\<lparr>height = None\<rparr>, \<lparr>height = Some 4\<rparr>],
                     Column [\<lparr>height = None\<rparr>, \<lparr>height = Some 2\<rparr>,
                             \<lparr>height = None\<rparr>, \<lparr>height = Some 3\<rparr>]]) ''Analyzers'')"
proof -
  let ?b = "\<lambda>n::int. (\<lparr>height = None\<rparr>, [\<lparr>height = Some n\<rparr>])"
  have h: "block_height (?b 4) = 4 \<and> block_height (?b 2) = 2 \<and> block_height (?b 3) = 3"
    by (simp add: block_height_def get_column_row_count_def)
  have "fill_columns [?b 4, ?b 2, ?b 3] =
          ([fst (?b 4)] @ snd (?b 4), [fst (?b 2)] @ snd (?b 2) @ [fst (?b 3)] @ snd (?b 3))"
    using analyzer_tab_greedy_balance [of "[]" "?b 4" "?b 4" "?b 2" "?b 3"] h by blast
  then show ?thesis
    by (simp add: get_analyzer_tab_def analyzer_blocks_def)
qed

text \<open>
  The distribution claim C5 gives for the heights 4, 2, 3 (left column 4 and 3, right
  column 2) is not the one the analyzer tab produces.
\<close>

theorem analyzer_tab_4_2_3_counterexample:
  "get_analyzer_tab (\<lambda>n. (\<lparr>height = None\<rparr>, [\<lparr>height = Some n\<rparr>]))
     [[(''a'', 4), (''b'', 2), (''c'', 3)]] \<noteq>
   Some (Panel (Row [Column [\<lparr>height = None\<rparr>, \<lparr>height = Some 4\<rparr>,
                             \<lparr>height = None\<rparr>, \<lparr>height = Some 3\<rparr>],
                     Column [\<lparr>height = None\<rparr>, \<lparr>height = Some 2\<rparr>]]) ''Analyzers'')"
  by (simp add: get_analyzer_tab_def analyzer_blocks_def fill_columns_def place_block_def
        col_idx_def get_column_row_count_def)

text \<open>
  Claim C10. When the two columns have the same cumulative height the index chosen is 0 and
  the block goes to the left column; so the first block always goes left. The right column
  holds exactly the blocks for which index 1 was chosen, and the tab has a second column
  exactly when some block was placed there; without analyzer collections there is no tab.
\<close>

theorem analyzer_tab_tie_goes_left:
  "(get_column_row_count (fst cc) = get_column_row_count (snd cc) \<longrightarrow>
      col_idx cc = 0 \<and> place_block cc b = (fst cc @ [fst b] @ snd b, snd cc))
   \<and> fill_columns (b # bs) = foldl place_block ([fst b] @ snd b, []) bs
   \<and> col_trace ([], []) (b # bs) = 0 # col_trace ([fst b] @ snd b, []) bs
   \<and> snd (fill_columns blocks) =
       concat [[fst b'] @ snd b'. (b', i) \<leftarrow> zip blocks (col_trace ([], []) blocks), i = 1]
   \<and> get_analyzer_tab t as =
       (if as = [] then None
        else Some (Panel (Row (Column (fst (fill_columns (analyzer_blocks t as))) #
                 (if 1 \<in> set (col_trace ([], []) (analyzer_blocks t as))
                  then [Column (snd (fill_columns (analyzer_blocks t as)))] else [])))
               ''Analyzers''))"
proof -
  have tie: "col_idx cc = 0 \<and> place_block cc b = (fst cc @ [fst b] @ snd b, snd cc)"
    if "get_column_row_count (fst cc) = get_column_row_count (snd cc)"
    using that by (simp add: place_block_def col_idx_def)
  have first: "place_block ([], []) b = ([fst b] @ snd b, [])" "col_idx ([], []) = 0"
    by (simp_all add: place_block_def col_idx_def)
  have f1: "fill_columns (b # bs) = foldl place_block ([fst b] @ snd b, []) bs"
    unfolding fill_columns_def using first(1) by simp
  have f2: "col_trace ([], []) (b # bs) = 0 # col_trace ([fst b] @ snd b, []) bs"
    using first by simp
  have right: "snd (fill_columns blocks) =
       concat [[fst b'] @ snd b'. (b', i) \<leftarrow> zip blocks (col_trace ([], []) blocks), i = 1]"
    unfolding fill_columns_def using snd_foldl_place_block [of "([], [])" blocks] by simp
  have e: "snd (fill_columns (analyzer_blocks t as)) = [] \<longleftrightarrow>
             1 \<notin> set (col_trace ([], []) (analyzer_blocks t as))"
    unfolding fill_columns_def
    using snd_foldl_place_block_empty [of "([], [])" "analyzer_blocks t as"] by simp
  have tab: "get_analyzer_tab t as =
       (if as = [] then None
        else Some (Panel (Row (Column (fst (fill_columns (analyzer_blocks t as))) #
                 (if 1 \<in> set (col_trace ([], []) (analyzer_blocks t as))
                  then [Column (snd (fill_columns (analyzer_blocks t as)))] else [])))
               ''Analyzers''))"
    using e by (simp add: get_analyzer_tab_def Let_def)
  show ?thesis using tie f1 f2 right tab by blast
qed

text \<open>
  The statement of C10 at two columns of height 2 each, and at a tab with one analyzer,
  which has a left column only.
\<close>

theorem analyzer_tab_tie_goes_left_witness:
  "place_block ([\<lparr>height = Some 2\<rparr>], [\<lparr>height = Some 2\<rparr>]) (\<lparr>height = None\<rparr>, [\<lparr>height = Some 1\<rparr>]) =
     ([\<lparr>height = Some 2\<rparr>, \<lparr>height = None\<rparr>, \<lparr>height = Some 1\<rparr>], [\<lparr>height = Some 2\<rparr>])
   \<and> get_analyzer_tab (\<lambda>n. (\<lparr>height = None\<rparr>, [\<lparr>height = Some n\<rparr>])) [[(''a'', 1)]] =
       Some (Panel (Row [Column [\<lparr>height = None\<rparr>, \<lparr>height = Some 1\<rparr>]]) ''Analyzers'')"
proof -
  have tie: "get_column_row_count (fst ([\<lparr>height = Some 2\<rparr>], [\<lparr>height = Some 2\<rparr>])) =
             get_column_row_count (snd ([\<lparr>height = Some 2\<rparr>], [\<lparr>height = Some 2\<rparr>]))"
    by simp
  note inst = analyzer_tab_tie_goes_left
    [of "([\<lparr>height = Some 2\<rparr>], [\<lparr>height = Some 2\<rparr>])" "(\<lparr>height = None\<rparr>, [\<lparr>height = Some 1\<rparr>])"
        "[]" "[]" "\<lambda>n. (\<lparr>height = None\<rparr>, [\<lparr>height = Some n\<rparr>])" "[[(''a'', 1)]]"]
  have left: "place_block ([\<lparr>height = Some 2\<rparr>], [\<lparr>height = Some 2\<rparr>]) (\<lparr>height = None\<rparr>, [\<lparr>height = Some 1\<rparr>]) =
     ([\<lparr>height = Some 2\<rparr>, \<lparr>height = None\<rparr>, \<lparr>height = Some 1\<rparr>], [\<lparr>height = Some 2\<rparr>])"
    using inst tie by simp
  have tab: "get_analyzer_tab (\<lambda>n. (\<lparr>height = None\<rparr>, [\<lparr>height = Some n\<rparr>])) [[(''a'', 1)]] =
       Some (Panel (Row [Column [\<lparr>height = None\<rparr>, \<lparr>height = Some 1\<rparr>]]) ''Analyzers'')"
    using inst
    by (simp add: analyzer_blocks_def fill_columns_def place_block_def col_idx_def
          get_column_row_count_def)
  show ?thesis using left tab by simp
qed

end
